theory Spec2Isabelle
  imports Main "HOL-Library.Word" "HOL-Library.Multiset"
begin

section \<open>Data model (internal/engine: order types)\<close>

text \<open>
  Go's \<^verbatim>\<open>int64\<close> is a 64-bit word: \<open>+\<close> and \<open>-\<close> wrap, and the comparisons of the
  source are the signed ones (\<open><s\<close>, \<open>\<le>s\<close>).  Order objects are shared by
  pointer between the price levels and the per-book id index, so they live in an
  explicit store: an \<open>addr\<close> is a \<^verbatim>\<open>*Order\<close>.
\<close>

type_synonym int64 = "64 word"
type_synonym addr = nat

datatype OrderSide = BUY | SELL

datatype OrderType = LIMIT | MARKET

datatype OrderStatus = ACCEPTED | PARTIAL_FILL | FILLED | CANCELLED

record Order =
  ID :: string
  Symbol :: string
  Side :: OrderSide
  Type :: OrderType
  Price :: int64
  Quantity :: int64
  FilledQuantity :: int64
  Status :: OrderStatus
  Timestamp :: int64

record Trade =
  TradeID :: string
  TradePrice :: int64
  TradeQuantity :: int64
  TradeTimestamp :: int64
  BuyerID :: string
  SellerID :: string

record PriceLevel =
  LevelPrice :: int64
  LevelOrders :: "addr list"

record OrderBook =
  BookSymbol :: string
  Bids :: "PriceLevel list"
  Asks :: "PriceLevel list"
  Orders :: "string \<rightharpoonup> addr"

type_synonym store = "addr \<Rightarrow> Order"

record MatchingEngine =
  books :: "string \<rightharpoonup> OrderBook"
  heap :: store
  next_addr :: addr

record OrderResult =
  OrderID :: string
  ResultStatus :: OrderStatus
  ResultFilledQuantity :: int64
  RemainingQuantity :: int64
  Trades :: "Trade list"
  Message :: string

text \<open>
  The errors of the engine are \<^verbatim>\<open>fmt.Errorf\<close> values; each constructor stands for one
  message: "quantity must be positive", "price must be positive for limit orders",
  "insufficient liquidity: only %d shares available, requested %d",
  "cannot cancel: order already filled", "order not found".
\<close>

datatype error =
    InvalidQuantity
  | InvalidPrice
  | InsufficientLiquidity int64 int64
  | NotCancellable
  | NotFound

text \<open>
  \<^verbatim>\<open>uuid.New()\<close> and \<^verbatim>\<open>time.Now()\<close> are inputs from the environment.  One call of
  \<open>SubmitOrder\<close> draws value \<open>0\<close> for the order and value \<open>Suc k\<close> for its \<open>k\<close>-th trade.
\<close>

record Env =
  uuid_New :: "nat \<Rightarrow> string"
  time_Now :: "nat \<Rightarrow> int64"

section \<open>Order book (internal/engine: order book)\<close>

definition placeholder :: Order where
  "placeholder = \<lparr>ID = [], Symbol = [], Side = BUY, Type = LIMIT, Price = 0, Quantity = 0,
     FilledQuantity = 0, Status = ACCEPTED, Timestamp = 0\<rparr>"

definition NewOrderBook :: "string \<Rightarrow> OrderBook" where
  "NewOrderBook symbol = \<lparr>BookSymbol = symbol, Bids = [], Asks = [], Orders = Map.empty\<rparr>"

definition NewOrder ::
  "Env \<Rightarrow> string \<Rightarrow> OrderSide \<Rightarrow> OrderType \<Rightarrow> int64 \<Rightarrow> int64 \<Rightarrow> Order" where
  "NewOrder e symbol side orderType price quantity =
     \<lparr>ID = uuid_New e 0, Symbol = symbol, Side = side, Type = orderType, Price = price,
      Quantity = quantity, FilledQuantity = 0, Status = ACCEPTED, Timestamp = time_Now e 0\<rparr>"

text \<open>The search loop of \<open>addToBids\<close>/\<open>addToAsks\<close>: the first level at the order's
  price gets the order appended; \<open>None\<close> when the loop falls through.\<close>

fun appendToLevel :: "int64 \<Rightarrow> addr \<Rightarrow> PriceLevel list \<Rightarrow> PriceLevel list option" where
  "appendToLevel p a [] = None"
| "appendToLevel p a (level # ls) =
     (if LevelPrice level = p
      then Some (level\<lparr>LevelOrders := LevelOrders level @ [a]\<rparr> # ls)
      else map_option ((#) level) (appendToLevel p a ls))"

text \<open>\<^verbatim>\<open>sort.Slice\<close> is modelled by a sort on the signed price; the result of a sort is
  determined by the comparison when the prices are pairwise different, which the search
  loop has just established for the new level.\<close>

definition addToBids :: "store \<Rightarrow> addr \<Rightarrow> PriceLevel list \<Rightarrow> PriceLevel list" where
  "addToBids h a bids =
     (case appendToLevel (Price (h a)) a bids of
        Some bids' \<Rightarrow> bids'
      | None \<Rightarrow> sort_key (\<lambda>l. - sint (LevelPrice l))
                 (bids @ [\<lparr>LevelPrice = Price (h a), LevelOrders = [a]\<rparr>]))"

definition addToAsks :: "store \<Rightarrow> addr \<Rightarrow> PriceLevel list \<Rightarrow> PriceLevel list" where
  "addToAsks h a asks =
     (case appendToLevel (Price (h a)) a asks of
        Some asks' \<Rightarrow> asks'
      | None \<Rightarrow> sort_key (\<lambda>l. sint (LevelPrice l))
                 (asks @ [\<lparr>LevelPrice = Price (h a), LevelOrders = [a]\<rparr>]))"

definition AddOrder :: "store \<Rightarrow> addr \<Rightarrow> OrderBook \<Rightarrow> OrderBook" where
  "AddOrder h a ob =
     (let ob1 = ob\<lparr>Orders := (Orders ob)(ID (h a) \<mapsto> a)\<rparr>
      in if Side (h a) = BUY
         then ob1\<lparr>Bids := addToBids h a (Bids ob1)\<rparr>
         else ob1\<lparr>Asks := addToAsks h a (Asks ob1)\<rparr>)"

text \<open>The inner loop of \<open>removeFromBids\<close>/\<open>removeFromAsks\<close>: drop the first order with
  the given id.\<close>

fun removeByID :: "store \<Rightarrow> string \<Rightarrow> addr list \<Rightarrow> addr list" where
  "removeByID h oid [] = []"
| "removeByID h oid (a # as) = (if ID (h a) = oid then as else a # removeByID h oid as)"

text \<open>The outer loop: only the first level at the order's price is visited.\<close>

fun removeFromLevels :: "store \<Rightarrow> Order \<Rightarrow> PriceLevel list \<Rightarrow> PriceLevel list" where
  "removeFromLevels h order [] = []"
| "removeFromLevels h order (level # ls) =
     (if LevelPrice level = Price order
      then (let os = removeByID h (ID order) (LevelOrders level)
            in if os = [] then ls else level\<lparr>LevelOrders := os\<rparr> # ls)
      else level # removeFromLevels h order ls)"

definition removeFromBids :: "store \<Rightarrow> Order \<Rightarrow> OrderBook \<Rightarrow> OrderBook" where
  "removeFromBids h order ob = ob\<lparr>Bids := removeFromLevels h order (Bids ob)\<rparr>"

definition removeFromAsks :: "store \<Rightarrow> Order \<Rightarrow> OrderBook \<Rightarrow> OrderBook" where
  "removeFromAsks h order ob = ob\<lparr>Asks := removeFromLevels h order (Asks ob)\<rparr>"

definition RemoveOrder :: "store \<Rightarrow> string \<Rightarrow> OrderBook \<Rightarrow> error option \<times> OrderBook" where
  "RemoveOrder h orderID ob =
     (case Orders ob orderID of
        None \<Rightarrow> (Some NotFound, ob)
      | Some a \<Rightarrow>
          (None, if Side (h a) = BUY then removeFromBids h (h a) ob
                 else removeFromAsks h (h a) ob))"

section \<open>Matcher (internal/engine/matcher.go)\<close>

definition min64 :: "int64 \<Rightarrow> int64 \<Rightarrow> int64" where
  "min64 a b = (if a <s b then a else b)"

text \<open>The aggressor is the object \<open>NewOrder\<close> has just allocated: no other pointer to it
  exists before \<open>AddOrder\<close> publishes it, so it is threaded through the match by value and
  gets its cell in the store when it is published.\<close>

type_synonym match_state = "store \<times> PriceLevel list \<times> Order \<times> Trade list"

text \<open>Inner loop of \<open>matchBuyOrder\<close>: the FIFO queue of the best ask level.\<close>

function matchBuyLevel ::
  "Env \<Rightarrow> store \<Rightarrow> addr list \<Rightarrow> Order \<Rightarrow> Trade list \<Rightarrow> store \<times> addr list \<times> Order \<times> Trade list"
where
  "matchBuyLevel e h [] buyOrder trades = (h, [], buyOrder, trades)"
| "matchBuyLevel e h (s # os) buyOrder trades =
     (if FilledQuantity buyOrder <s Quantity buyOrder then
        let sellOrder = h s;
            remainingBuy = Quantity buyOrder - FilledQuantity buyOrder;
            remainingSell = Quantity sellOrder - FilledQuantity sellOrder;
            tradeQty = min64 remainingBuy remainingSell;
            trade = \<lparr>TradeID = uuid_New e (Suc (length trades)),
                     TradePrice = Price sellOrder,
                     TradeQuantity = tradeQty,
                     TradeTimestamp = time_Now e (Suc (length trades)),
                     BuyerID = ID buyOrder,
                     SellerID = ID sellOrder\<rparr>;
            buyOrder' = buyOrder\<lparr>FilledQuantity := FilledQuantity buyOrder + tradeQty\<rparr>;
            sellOrder' = sellOrder\<lparr>FilledQuantity := FilledQuantity sellOrder + tradeQty\<rparr>
        in if FilledQuantity sellOrder' = Quantity sellOrder'
           then matchBuyLevel e (h(s := sellOrder'\<lparr>Status := FILLED\<rparr>)) os
                  buyOrder' (trades @ [trade])
           else matchBuyLevel e (h(s := sellOrder'\<lparr>Status := PARTIAL_FILL\<rparr>)) (s # os)
                  buyOrder' (trades @ [trade])
      else (h, s # os, buyOrder, trades))"
  by pat_completeness auto
termination
  by (relation "measure (\<lambda>(e, h, os, b, ts). 2 * length os +
        (if FilledQuantity b <s Quantity b then 1 else 0))")
     (auto simp: min64_def split: if_splits)

lemma min64_cases: "min64 a b = a \<or> min64 a b = b"
  by (simp add: min64_def)

declare matchBuyLevel.simps(2) [simp del]

text \<open>The loop body once: when the head order is not used up, the aggressor is, and the
  loop ends.\<close>

lemma matchBuyLevel_Cons:
  "matchBuyLevel e h (r # os) x ts =
     (if FilledQuantity x <s Quantity x then
        let q = min64 (Quantity x - FilledQuantity x) (Quantity (h r) - FilledQuantity (h r));
            t = \<lparr>TradeID = uuid_New e (Suc (length ts)), TradePrice = Price (h r),
                 TradeQuantity = q, TradeTimestamp = time_Now e (Suc (length ts)),
                 BuyerID = ID x, SellerID = ID (h r)\<rparr>;
            x' = x\<lparr>FilledQuantity := FilledQuantity x + q\<rparr>
        in if q = Quantity (h r) - FilledQuantity (h r)
           then matchBuyLevel e
                  (h(r := (h r)\<lparr>FilledQuantity := FilledQuantity (h r) + q, Status := FILLED\<rparr>))
                  os x' (ts @ [t])
           else (h(r := (h r)\<lparr>FilledQuantity := FilledQuantity (h r) + q,
                                 Status := PARTIAL_FILL\<rparr>),
                 r # os, x', ts @ [t])
      else (h, r # os, x, ts))"
proof (cases "FilledQuantity x <s Quantity x")
  case False
  then show ?thesis by (simp add: matchBuyLevel.simps(2))
next
  case True
  define q where
    "q = min64 (Quantity x - FilledQuantity x) (Quantity (h r) - FilledQuantity (h r))"
  have pop: "FilledQuantity (h r) + q = Quantity (h r) \<longleftrightarrow>
      q = Quantity (h r) - FilledQuantity (h r)"
    by (metis add_diff_cancel_left' diff_add_cancel add.commute)
  show ?thesis
  proof (cases "q = Quantity (h r) - FilledQuantity (h r)")
    case True
    with \<open>FilledQuantity x <s Quantity x\<close> show ?thesis
      by (simp add: matchBuyLevel.simps(2) [of e h r os x ts] Let_def q_def [symmetric])
  next
    case False
    with min64_cases [of "Quantity x - FilledQuantity x" "Quantity (h r) - FilledQuantity (h r)"]
    have q: "q = Quantity x - FilledQuantity x" by (simp add: q_def)
    have stop: "matchBuyLevel e h2 (r # os) (x\<lparr>FilledQuantity := FilledQuantity x + q\<rparr>) ts2
        = (h2, r # os, x\<lparr>FilledQuantity := FilledQuantity x + q\<rparr>, ts2)" for h2 ts2
      by (simp add: matchBuyLevel.simps(2) q)
    from False \<open>FilledQuantity x <s Quantity x\<close> show ?thesis
      by (simp add: matchBuyLevel.simps(2) [of e h r os x ts] Let_def q_def [symmetric] pop stop)
  qed
qed

lemma matchBuyLevel_exit:
  "matchBuyLevel e h os x ts = (h', os', x', ts') \<Longrightarrow>
     os' = [] \<or> \<not> FilledQuantity x' <s Quantity x'"
proof (induction os arbitrary: h x ts)
  case Nil
  then show ?case by simp
next
  case (Cons r os)
  show ?case
  proof (cases "FilledQuantity x <s Quantity x")
    case False
    with Cons.prems show ?thesis by (simp add: matchBuyLevel_Cons)
  next
    case True
    let ?q = "min64 (Quantity x - FilledQuantity x) (Quantity (h r) - FilledQuantity (h r))"
    show ?thesis
    proof (cases "?q = Quantity (h r) - FilledQuantity (h r)")
      case True
      with Cons.prems \<open>FilledQuantity x <s Quantity x\<close> show ?thesis
        by (auto simp: matchBuyLevel_Cons Let_def dest: Cons.IH)
    next
      case False
      with min64_cases [of "Quantity x - FilledQuantity x" "Quantity (h r) - FilledQuantity (h r)"]
      have "?q = Quantity x - FilledQuantity x" by simp
      with False Cons.prems \<open>FilledQuantity x <s Quantity x\<close> show ?thesis
        by (auto simp: matchBuyLevel_Cons Let_def)
    qed
  qed
qed

text \<open>Outer loop of \<open>matchBuyOrder\<close>: walk the asks from the lowest price.\<close>

function matchBuyLoop ::
  "Env \<Rightarrow> store \<Rightarrow> PriceLevel list \<Rightarrow> Order \<Rightarrow> Trade list \<Rightarrow> match_state"
where
  "matchBuyLoop e h [] buyOrder trades = (h, [], buyOrder, trades)"
| "matchBuyLoop e h (bestAsk # asks) buyOrder trades =
     (if FilledQuantity buyOrder <s Quantity buyOrder then
        if Type buyOrder = LIMIT \<and> Price buyOrder <s LevelPrice bestAsk
        then (h, bestAsk # asks, buyOrder, trades)
        else
          (case matchBuyLevel e h (LevelOrders bestAsk) buyOrder trades of
             (h', os', buyOrder', trades') \<Rightarrow>
               if os' = []
               then matchBuyLoop e h' asks buyOrder' trades'
               else matchBuyLoop e h' (bestAsk\<lparr>LevelOrders := os'\<rparr> # asks) buyOrder' trades')
      else (h, bestAsk # asks, buyOrder, trades))"
  by pat_completeness auto
termination
proof (relation "measure (\<lambda>(e, h, asks, b, ts). 2 * length asks +
        (if FilledQuantity b <s Quantity b then 1 else 0))", goal_cases)
  case 1
  show ?case by simp
next
  case (2 e h bestAsk asks buyOrder trades x y xa ya xb yb)
  from \<open>(xb, yb) = ya\<close> have ya: "ya = (xb, yb)" by (rule sym)
  show ?case unfolding ya by simp
next
  case (3 e h bestAsk asks buyOrder trades x y xa ya xb yb)
  from \<open>(xb, yb) = ya\<close> have ya: "ya = (xb, yb)" by (rule sym)
  from \<open>(xa, ya) = y\<close> have y: "y = (xa, xb, yb)" unfolding ya by (rule sym)
  from \<open>(x, y) = matchBuyLevel e h (LevelOrders bestAsk) buyOrder trades\<close>
  have "matchBuyLevel e h (LevelOrders bestAsk) buyOrder trades = (x, xa, xb, yb)"
    unfolding y by (rule sym)
  from matchBuyLevel_exit [OF this] \<open>xa \<noteq> []\<close>
  have "\<not> FilledQuantity xb <s Quantity xb" by blast
  then show ?case unfolding ya using \<open>FilledQuantity buyOrder <s Quantity buyOrder\<close> by simp
qed

declare matchBuyLoop.simps(2) [simp del]

text \<open>The outer loop once: a level that is left non-empty ends the walk.\<close>

lemma matchBuyLoop_Cons:
  "matchBuyLoop e h (l # ls) x ts =
     (if FilledQuantity x <s Quantity x then
        if Type x = LIMIT \<and> Price x <s LevelPrice l
        then (h, l # ls, x, ts)
        else
          (case matchBuyLevel e h (LevelOrders l) x ts of
             (h', os', x', ts') \<Rightarrow>
               if os' = []
               then matchBuyLoop e h' ls x' ts'
               else (h', l\<lparr>LevelOrders := os'\<rparr> # ls, x', ts'))
      else (h, l # ls, x, ts))"
proof -
  obtain h' os' x' ts' where m: "matchBuyLevel e h (LevelOrders l) x ts = (h', os', x', ts')"
    by (cases "matchBuyLevel e h (LevelOrders l) x ts") auto
  have "os' \<noteq> [] \<Longrightarrow> matchBuyLoop e h' (l\<lparr>LevelOrders := os'\<rparr> # ls) x' ts'
      = (h', l\<lparr>LevelOrders := os'\<rparr> # ls, x', ts')"
    using matchBuyLevel_exit [OF m] by (simp add: matchBuyLoop.simps(2))
  then show ?thesis
    by (simp add: matchBuyLoop.simps(2) [of e h l ls x ts] m)
qed

definition matchBuyOrder ::
  "Env \<Rightarrow> store \<Rightarrow> OrderBook \<Rightarrow> Order \<Rightarrow> store \<times> OrderBook \<times> Order \<times> Trade list" where
  "matchBuyOrder e h book buyOrder =
     (case matchBuyLoop e h (Asks book) buyOrder [] of
        (h', asks', buyOrder', trades) \<Rightarrow> (h', book\<lparr>Asks := asks'\<rparr>, buyOrder', trades))"

text \<open>Inner loop of \<open>matchSellOrder\<close>: the FIFO queue of the best bid level.\<close>

function matchSellLevel ::
  "Env \<Rightarrow> store \<Rightarrow> addr list \<Rightarrow> Order \<Rightarrow> Trade list \<Rightarrow> store \<times> addr list \<times> Order \<times> Trade list"
where
  "matchSellLevel e h [] sellOrder trades = (h, [], sellOrder, trades)"
| "matchSellLevel e h (b # os) sellOrder trades =
     (if FilledQuantity sellOrder <s Quantity sellOrder then
        let buyOrder = h b;
            remainingSell = Quantity sellOrder - FilledQuantity sellOrder;
            remainingBuy = Quantity buyOrder - FilledQuantity buyOrder;
            tradeQty = min64 remainingSell remainingBuy;
            trade = \<lparr>TradeID = uuid_New e (Suc (length trades)),
                     TradePrice = Price buyOrder,
                     TradeQuantity = tradeQty,
                     TradeTimestamp = time_Now e (Suc (length trades)),
                     BuyerID = ID buyOrder,
                     SellerID = ID sellOrder\<rparr>;
            sellOrder' = sellOrder\<lparr>FilledQuantity := FilledQuantity sellOrder + tradeQty\<rparr>;
            buyOrder' = buyOrder\<lparr>FilledQuantity := FilledQuantity buyOrder + tradeQty\<rparr>
        in if FilledQuantity buyOrder' = Quantity buyOrder'
           then matchSellLevel e (h(b := buyOrder'\<lparr>Status := FILLED\<rparr>)) os
                  sellOrder' (trades @ [trade])
           else matchSellLevel e (h(b := buyOrder'\<lparr>Status := PARTIAL_FILL\<rparr>)) (b # os)
                  sellOrder' (trades @ [trade])
      else (h, b # os, sellOrder, trades))"
  by pat_completeness auto
termination
  by (relation "measure (\<lambda>(e, h, os, s, ts). 2 * length os +
        (if FilledQuantity s <s Quantity s then 1 else 0))")
     (auto simp: min64_def split: if_splits)

declare matchSellLevel.simps(2) [simp del]

text \<open>The loop body once: when the head order is not used up, the aggressor is, and the
  loop ends.\<close>

lemma matchSellLevel_Cons:
  "matchSellLevel e h (r # os) x ts =
     (if FilledQuantity x <s Quantity x then
        let q = min64 (Quantity x - FilledQuantity x) (Quantity (h r) - FilledQuantity (h r));
            t = \<lparr>TradeID = uuid_New e (Suc (length ts)), TradePrice = Price (h r),
                 TradeQuantity = q, TradeTimestamp = time_Now e (Suc (length ts)),
                 BuyerID = ID (h r), SellerID = ID x\<rparr>;
            x' = x\<lparr>FilledQuantity := FilledQuantity x + q\<rparr>
        in if q = Quantity (h r) - FilledQuantity (h r)
           then matchSellLevel e
                  (h(r := (h r)\<lparr>FilledQuantity := FilledQuantity (h r) + q, Status := FILLED\<rparr>))
                  os x' (ts @ [t])
           else (h(r := (h r)\<lparr>FilledQuantity := FilledQuantity (h r) + q,
                                 Status := PARTIAL_FILL\<rparr>),
                 r # os, x', ts @ [t])
      else (h, r # os, x, ts))"
proof (cases "FilledQuantity x <s Quantity x")
  case False
  then show ?thesis by (simp add: matchSellLevel.simps(2))
next
  case True
  define q where
    "q = min64 (Quantity x - FilledQuantity x) (Quantity (h r) - FilledQuantity (h r))"
  have pop: "FilledQuantity (h r) + q = Quantity (h r) \<longleftrightarrow>
      q = Quantity (h r) - FilledQuantity (h r)"
    by (metis add_diff_cancel_left' diff_add_cancel add.commute)
  show ?thesis
  proof (cases "q = Quantity (h r) - FilledQuantity (h r)")
    case True
    with \<open>FilledQuantity x <s Quantity x\<close> show ?thesis
      by (simp add: matchSellLevel.simps(2) [of e h r os x ts] Let_def q_def [symmetric])
  next
    case False
    with min64_cases [of "Quantity x - FilledQuantity x" "Quantity (h r) - FilledQuantity (h r)"]
    have q: "q = Quantity x - FilledQuantity x" by (simp add: q_def)
    have stop: "matchSellLevel e h2 (r # os) (x\<lparr>FilledQuantity := FilledQuantity x + q\<rparr>) ts2
        = (h2, r # os, x\<lparr>FilledQuantity := FilledQuantity x + q\<rparr>, ts2)" for h2 ts2
      by (simp add: matchSellLevel.simps(2) q)
    from False \<open>FilledQuantity x <s Quantity x\<close> show ?thesis
      by (simp add: matchSellLevel.simps(2) [of e h r os x ts] Let_def q_def [symmetric] pop stop)
  qed
qed

lemma matchSellLevel_exit:
  "matchSellLevel e h os x ts = (h', os', x', ts') \<Longrightarrow>
     os' = [] \<or> \<not> FilledQuantity x' <s Quantity x'"
proof (induction os arbitrary: h x ts)
  case Nil
  then show ?case by simp
next
  case (Cons r os)
  show ?case
  proof (cases "FilledQuantity x <s Quantity x")
    case False
    with Cons.prems show ?thesis by (simp add: matchSellLevel_Cons)
  next
    case True
    let ?q = "min64 (Quantity x - FilledQuantity x) (Quantity (h r) - FilledQuantity (h r))"
    show ?thesis
    proof (cases "?q = Quantity (h r) - FilledQuantity (h r)")
      case True
      with Cons.prems \<open>FilledQuantity x <s Quantity x\<close> show ?thesis
        by (auto simp: matchSellLevel_Cons Let_def dest: Cons.IH)
    next
      case False
      with min64_cases [of "Quantity x - FilledQuantity x" "Quantity (h r) - FilledQuantity (h r)"]
      have "?q = Quantity x - FilledQuantity x" by simp
      with False Cons.prems \<open>FilledQuantity x <s Quantity x\<close> show ?thesis
        by (auto simp: matchSellLevel_Cons Let_def)
    qed
  qed
qed

text \<open>Outer loop of \<open>matchSellOrder\<close>: walk the bids from the highest price.\<close>

function matchSellLoop ::
  "Env \<Rightarrow> store \<Rightarrow> PriceLevel list \<Rightarrow> Order \<Rightarrow> Trade list \<Rightarrow> match_state"
where
  "matchSellLoop e h [] sellOrder trades = (h, [], sellOrder, trades)"
| "matchSellLoop e h (bestBid # bids) sellOrder trades =
     (if FilledQuantity sellOrder <s Quantity sellOrder then
        if Type sellOrder = LIMIT \<and> LevelPrice bestBid <s Price sellOrder
        then (h, bestBid # bids, sellOrder, trades)
        else
          (case matchSellLevel e h (LevelOrders bestBid) sellOrder trades of
             (h', os', sellOrder', trades') \<Rightarrow>
               if os' = []
               then matchSellLoop e h' bids sellOrder' trades'
               else matchSellLoop e h' (bestBid\<lparr>LevelOrders := os'\<rparr> # bids) sellOrder' trades')
      else (h, bestBid # bids, sellOrder, trades))"
  by pat_completeness auto
termination
proof (relation "measure (\<lambda>(e, h, bids, b, ts). 2 * length bids +
        (if FilledQuantity b <s Quantity b then 1 else 0))", goal_cases)
  case 1
  show ?case by simp
next
  case (2 e h bestBid bids sellOrder trades x y xa ya xb yb)
  from \<open>(xb, yb) = ya\<close> have ya: "ya = (xb, yb)" by (rule sym)
  show ?case unfolding ya by simp
next
  case (3 e h bestBid bids sellOrder trades x y xa ya xb yb)
  from \<open>(xb, yb) = ya\<close> have ya: "ya = (xb, yb)" by (rule sym)
  from \<open>(xa, ya) = y\<close> have y: "y = (xa, xb, yb)" unfolding ya by (rule sym)
  from \<open>(x, y) = matchSellLevel e h (LevelOrders bestBid) sellOrder trades\<close>
  have "matchSellLevel e h (LevelOrders bestBid) sellOrder trades = (x, xa, xb, yb)"
    unfolding y by (rule sym)
  from matchSellLevel_exit [OF this] \<open>xa \<noteq> []\<close>
  have "\<not> FilledQuantity xb <s Quantity xb" by blast
  then show ?case unfolding ya using \<open>FilledQuantity sellOrder <s Quantity sellOrder\<close> by simp
qed

declare matchSellLoop.simps(2) [simp del]

text \<open>The outer loop once: a level that is left non-empty ends the walk.\<close>

lemma matchSellLoop_Cons:
  "matchSellLoop e h (l # ls) x ts =
     (if FilledQuantity x <s Quantity x then
        if Type x = LIMIT \<and> LevelPrice l <s Price x
        then (h, l # ls, x, ts)
        else
          (case matchSellLevel e h (LevelOrders l) x ts of
             (h', os', x', ts') \<Rightarrow>
               if os' = []
               then matchSellLoop e h' ls x' ts'
               else (h', l\<lparr>LevelOrders := os'\<rparr> # ls, x', ts'))
      else (h, l # ls, x, ts))"
proof -
  obtain h' os' x' ts' where m: "matchSellLevel e h (LevelOrders l) x ts = (h', os', x', ts')"
    by (cases "matchSellLevel e h (LevelOrders l) x ts") auto
  have "os' \<noteq> [] \<Longrightarrow> matchSellLoop e h' (l\<lparr>LevelOrders := os'\<rparr> # ls) x' ts'
      = (h', l\<lparr>LevelOrders := os'\<rparr> # ls, x', ts')"
    using matchSellLevel_exit [OF m] by (simp add: matchSellLoop.simps(2))
  then show ?thesis
    by (simp add: matchSellLoop.simps(2) [of e h l ls x ts] m)
qed

definition matchSellOrder ::
  "Env \<Rightarrow> store \<Rightarrow> OrderBook \<Rightarrow> Order \<Rightarrow> store \<times> OrderBook \<times> Order \<times> Trade list" where
  "matchSellOrder e h book sellOrder =
     (case matchSellLoop e h (Bids book) sellOrder [] of
        (h', bids', sellOrder', trades) \<Rightarrow> (h', book\<lparr>Bids := bids'\<rparr>, sellOrder', trades))"

definition matchLimitOrder ::
  "Env \<Rightarrow> store \<Rightarrow> OrderBook \<Rightarrow> Order \<Rightarrow> store \<times> OrderBook \<times> Order \<times> Trade list" where
  "matchLimitOrder e h book order =
     (if Side order = BUY then matchBuyOrder e h book order
      else matchSellOrder e h book order)"

text \<open>The liquidity precheck of \<open>matchMarketOrder\<close>: an \<^verbatim>\<open>int64\<close> accumulator over the
  levels and their queues.\<close>

definition availableLiquidity :: "store \<Rightarrow> PriceLevel list \<Rightarrow> int64" where
  "availableLiquidity h levels =
     foldl (\<lambda>acc level.
        foldl (\<lambda>acc a. acc + (Quantity (h a) - FilledQuantity (h a))) acc (LevelOrders level))
       0 levels"

definition matchMarketOrder ::
  "Env \<Rightarrow> store \<Rightarrow> OrderBook \<Rightarrow> Order \<Rightarrow>
     error + store \<times> OrderBook \<times> Order \<times> Trade list" where
  "matchMarketOrder e h book order =
     (let liquidity = (if Side order = BUY then availableLiquidity h (Asks book)
                       else availableLiquidity h (Bids book))
      in if liquidity <s Quantity order
         then Inl (InsufficientLiquidity liquidity (Quantity order))
         else if Side order = BUY then Inr (matchBuyOrder e h book order)
         else Inr (matchSellOrder e h book order))"

definition matchOrder ::
  "Env \<Rightarrow> store \<Rightarrow> OrderBook \<Rightarrow> Order \<Rightarrow>
     error + store \<times> OrderBook \<times> Order \<times> Trade list" where
  "matchOrder e h book order =
     (if Type order = MARKET then matchMarketOrder e h book order
      else Inr (matchLimitOrder e h book order))"

section \<open>Engine registry (internal/engine/matcher.go)\<close>

text \<open>A cell of the store that no pointer refers to holds \<open>placeholder\<close>; it is written
  before its address is handed out.\<close>

definition NewMatchingEngine :: MatchingEngine where
  "NewMatchingEngine = \<lparr>books = Map.empty, heap = (\<lambda>_. placeholder), next_addr = 0\<rparr>"

definition GetOrCreateBook :: "string \<Rightarrow> MatchingEngine \<Rightarrow> OrderBook \<times> MatchingEngine" where
  "GetOrCreateBook symbol me =
     (case books me symbol of
        Some book \<Rightarrow> (book, me)
      | None \<Rightarrow> (NewOrderBook symbol, me\<lparr>books := (books me)(symbol \<mapsto> NewOrderBook symbol)\<rparr>))"

text \<open>A book is held by pointer in the registry: the book that the match and \<open>AddOrder\<close>
  have mutated is the one the registry holds afterwards.\<close>

definition SubmitOrder ::
  "Env \<Rightarrow> string \<Rightarrow> OrderSide \<Rightarrow> OrderType \<Rightarrow> int64 \<Rightarrow> int64 \<Rightarrow> MatchingEngine \<Rightarrow>
     (error + OrderResult) \<times> MatchingEngine" where
  "SubmitOrder e symbol side orderType price quantity me =
     (if quantity \<le>s 0 then (Inl InvalidQuantity, me)
      else if orderType = LIMIT \<and> price \<le>s 0 then (Inl InvalidPrice, me)
      else
        (case GetOrCreateBook symbol me of
           (book, me1) \<Rightarrow>
             (case matchOrder e (heap me1) book
                     (NewOrder e symbol side orderType price quantity) of
                Inl err \<Rightarrow> (Inl err, me1)
              | Inr (h, book', order, trades) \<Rightarrow>
                  let result = \<lparr>OrderID = ID order, ResultStatus = Status order,
                                ResultFilledQuantity = FilledQuantity order,
                                RemainingQuantity = 0, Trades = trades, Message = []\<rparr>
                  in if FilledQuantity order <s Quantity order \<and> orderType = LIMIT then
                       let remaining = Quantity order - FilledQuantity order;
                           a = next_addr me1;
                           h' = h(a := order);
                           book'' = AddOrder h' a book'
                       in (Inr (if 0 <s FilledQuantity order
                                then result\<lparr>RemainingQuantity := remaining,
                                       ResultStatus := PARTIAL_FILL,
                                       Message := ''Order partially filled and added to book''\<rparr>
                                else result\<lparr>RemainingQuantity := remaining,
                                       ResultStatus := ACCEPTED,
                                       Message := ''Order added to book''\<rparr>),
                           me1\<lparr>books := (books me1)(symbol \<mapsto> book''), heap := h',
                               next_addr := Suc a\<rparr>)
                     else
                       (Inr (if FilledQuantity order = Quantity order
                             then result\<lparr>ResultStatus := FILLED,
                                    Message := ''Order fully filled''\<rparr>
                             else result),
                        me1\<lparr>books := (books me1)(symbol \<mapsto> book'), heap := h\<rparr>))))"

text \<open>\<^verbatim>\<open>for _, book := range me.books\<close> visits the books in an order the runtime
  chooses; the order is the parameter \<open>ks\<close>, a list of the keys of the registry.\<close>

fun CancelOrder :: "string list \<Rightarrow> string \<Rightarrow> MatchingEngine \<Rightarrow> error option \<times> MatchingEngine" where
  "CancelOrder [] orderID me = (Some NotFound, me)"
| "CancelOrder (k # ks) orderID me =
     (case books me k of
        None \<Rightarrow> CancelOrder ks orderID me
      | Some book \<Rightarrow>
          (case Orders book orderID of
             None \<Rightarrow> CancelOrder ks orderID me
           | Some a \<Rightarrow>
               if Status (heap me a) = FILLED then (Some NotCancellable, me)
               else
                 let h = (heap me)(a := (heap me a)\<lparr>Status := CANCELLED\<rparr>)
                 in (case RemoveOrder h orderID book of
                       (err, book') \<Rightarrow>
                         (err, me\<lparr>books := (books me)(k \<mapsto> book'), heap := h\<rparr>))))"

fun GetOrder :: "string list \<Rightarrow> string \<Rightarrow> MatchingEngine \<Rightarrow> error + Order" where
  "GetOrder [] orderID me = Inl NotFound"
| "GetOrder (k # ks) orderID me =
     (case books me k of
        None \<Rightarrow> GetOrder ks orderID me
      | Some book \<Rightarrow>
          (case Orders book orderID of
             None \<Rightarrow> GetOrder ks orderID me
           | Some a \<Rightarrow> Inr (heap me a)))"

section \<open>The two match loops as one\<close>

text \<open>\<open>matchBuyOrder\<close> and \<open>matchSellOrder\<close> are the same loop up to the side that is
  walked, the direction of the price check and the buyer/seller assignment.  The loop is
  stated once, by recursion on the queue and on the ladder, and shown equal to both.\<close>

definition is_open :: "Order \<Rightarrow> bool" where
  "is_open x \<longleftrightarrow> FilledQuantity x <s Quantity x"

definition fill :: "int64 \<Rightarrow> Order \<Rightarrow> Order" where
  "fill q x = x\<lparr>FilledQuantity := FilledQuantity x + q\<rparr>"

definition mk_trade :: "OrderSide \<Rightarrow> Env \<Rightarrow> nat \<Rightarrow> Order \<Rightarrow> Order \<Rightarrow> int64 \<Rightarrow> Trade" where
  "mk_trade sd e n x r q =
     \<lparr>TradeID = uuid_New e (Suc n), TradePrice = Price r, TradeQuantity = q,
      TradeTimestamp = time_Now e (Suc n),
      BuyerID = (if sd = BUY then ID x else ID r),
      SellerID = (if sd = BUY then ID r else ID x)\<rparr>"

definition trade_qty :: "Order \<Rightarrow> Order \<Rightarrow> int64" where
  "trade_qty x r = min64 (Quantity x - FilledQuantity x) (Quantity r - FilledQuantity r)"

fun matchLevel ::
  "OrderSide \<Rightarrow> Env \<Rightarrow> store \<Rightarrow> addr list \<Rightarrow> Order \<Rightarrow> Trade list \<Rightarrow>
     store \<times> addr list \<times> Order \<times> Trade list" where
  "matchLevel sd e h [] x ts = (h, [], x, ts)"
| "matchLevel sd e h (r # os) x ts =
     (if is_open x then
        if trade_qty x (h r) = Quantity (h r) - FilledQuantity (h r)
        then matchLevel sd e (h(r := (fill (trade_qty x (h r)) (h r))\<lparr>Status := FILLED\<rparr>)) os
               (fill (trade_qty x (h r)) x)
               (ts @ [mk_trade sd e (length ts) x (h r) (trade_qty x (h r))])
        else (h(r := (fill (trade_qty x (h r)) (h r))\<lparr>Status := PARTIAL_FILL\<rparr>), r # os,
              fill (trade_qty x (h r)) x,
              ts @ [mk_trade sd e (length ts) x (h r) (trade_qty x (h r))])
      else (h, r # os, x, ts))"

definition price_stop :: "OrderSide \<Rightarrow> Order \<Rightarrow> PriceLevel \<Rightarrow> bool" where
  "price_stop sd x l \<longleftrightarrow>
     Type x = LIMIT \<and> (if sd = BUY then Price x <s LevelPrice l else LevelPrice l <s Price x)"

fun matchLoop ::
  "OrderSide \<Rightarrow> Env \<Rightarrow> store \<Rightarrow> PriceLevel list \<Rightarrow> Order \<Rightarrow> Trade list \<Rightarrow> match_state" where
  "matchLoop sd e h [] x ts = (h, [], x, ts)"
| "matchLoop sd e h (l # ls) x ts =
     (if is_open x \<and> \<not> price_stop sd x l then
        (case matchLevel sd e h (LevelOrders l) x ts of
           (h', os', x', ts') \<Rightarrow>
             if os' = [] then matchLoop sd e h' ls x' ts'
             else (h', l\<lparr>LevelOrders := os'\<rparr> # ls, x', ts'))
      else (h, l # ls, x, ts))"

lemma matchBuyLevel_eq: "matchBuyLevel e h os x ts = matchLevel BUY e h os x ts"
  by (induction os arbitrary: h x ts)
     (simp_all add: matchBuyLevel_Cons Let_def is_open_def trade_qty_def fill_def mk_trade_def)

lemma matchSellLevel_eq: "matchSellLevel e h os x ts = matchLevel SELL e h os x ts"
  by (induction os arbitrary: h x ts)
     (simp_all add: matchSellLevel_Cons Let_def is_open_def trade_qty_def fill_def mk_trade_def)

lemma matchBuyLoop_eq: "matchBuyLoop e h ls x ts = matchLoop BUY e h ls x ts"
  by (induction ls arbitrary: h x ts)
     (simp_all add: matchBuyLoop_Cons matchBuyLevel_eq is_open_def price_stop_def
        split: prod.splits)

lemma matchSellLoop_eq: "matchSellLoop e h ls x ts = matchLoop SELL e h ls x ts"
  by (induction ls arbitrary: h x ts)
     (simp_all add: matchSellLoop_Cons matchSellLevel_eq is_open_def price_stop_def
        split: prod.splits)

section \<open>Notions used to state the properties\<close>

definition addrs :: "PriceLevel list \<Rightarrow> addr list" where
  "addrs ls = concat (map LevelOrders ls)"

definition static_eq :: "Order \<Rightarrow> Order \<Rightarrow> bool" where
  "static_eq x y \<longleftrightarrow> ID x = ID y \<and> Symbol x = Symbol y \<and> Side x = Side y \<and> Type x = Type y
     \<and> Price x = Price y \<and> Quantity x = Quantity y \<and> Timestamp x = Timestamp y"

definition counterparty :: "OrderSide \<Rightarrow> Trade \<Rightarrow> string" where
  "counterparty sd t = (if sd = BUY then SellerID t else BuyerID t)"

definition aggressor :: "OrderSide \<Rightarrow> Trade \<Rightarrow> string" where
  "aggressor sd t = (if sd = BUY then BuyerID t else SellerID t)"

text \<open>Against levels whose orders rest at the level's price, a limit order trades at its
  limit or better.\<close>

definition within_limit :: "OrderSide \<Rightarrow> Order \<Rightarrow> int64 \<Rightarrow> bool" where
  "within_limit sd x p \<longleftrightarrow>
     (Type x = LIMIT \<longrightarrow> (if sd = BUY then p \<le>s Price x else Price x \<le>s p))"

definition opposing :: "OrderSide \<Rightarrow> OrderBook \<Rightarrow> PriceLevel list" where
  "opposing sd b = (if sd = BUY then Asks b else Bids b)"

definition own_side :: "OrderSide \<Rightarrow> OrderBook \<Rightarrow> PriceLevel list" where
  "own_side sd b = (if sd = BUY then Bids b else Asks b)"

definition set_opposing :: "OrderSide \<Rightarrow> PriceLevel list \<Rightarrow> OrderBook \<Rightarrow> OrderBook" where
  "set_opposing sd ls b = (if sd = BUY then b\<lparr>Asks := ls\<rparr> else b\<lparr>Bids := ls\<rparr>)"

definition the_book :: "string \<Rightarrow> MatchingEngine \<Rightarrow> OrderBook" where
  "the_book symbol me = fst (GetOrCreateBook symbol me)"

definition rests :: "OrderType \<Rightarrow> Order \<Rightarrow> bool" where
  "rests ty x \<longleftrightarrow> is_open x \<and> ty = LIMIT"

definition no_cross :: "OrderSide \<Rightarrow> int64 \<Rightarrow> PriceLevel list \<Rightarrow> bool" where
  "no_cross sd price ls \<longleftrightarrow>
     ls = [] \<or> (if sd = BUY then price <s LevelPrice (hd ls) else LevelPrice (hd ls) <s price)"

definition prices_match :: "store \<Rightarrow> PriceLevel list \<Rightarrow> bool" where
  "prices_match h ls \<longleftrightarrow> (\<forall>l \<in> set ls. \<forall>a \<in> set (LevelOrders l). Price (h a) = LevelPrice l)"

definition remaining :: "Order \<Rightarrow> int" where
  "remaining x = sint (Quantity x) - sint (FilledQuantity x)"

definition queue_remaining :: "store \<Rightarrow> addr list \<Rightarrow> int" where
  "queue_remaining h os = sum_list (map (\<lambda>a. remaining (h a)) os)"

definition traded :: "Trade list \<Rightarrow> int" where
  "traded ts = sum_list (map (\<lambda>t. sint (TradeQuantity t)) ts)"

definition resting_ok :: "Order \<Rightarrow> bool" where
  "resting_ok r \<longleftrightarrow> 0 \<le>s FilledQuantity r \<and> FilledQuantity r <s Quantity r"

definition agg_ok :: "Order \<Rightarrow> bool" where
  "agg_ok x \<longleftrightarrow> 0 \<le>s FilledQuantity x \<and> FilledQuantity x \<le>s Quantity x"

definition filled_up :: "Order \<Rightarrow> bool" where
  "filled_up r \<longleftrightarrow> FilledQuantity r = Quantity r \<and> Status r = FILLED"

definition level_ok :: "store \<Rightarrow> PriceLevel \<Rightarrow> bool" where
  "level_ok h l \<longleftrightarrow> sorted_wrt (<) (LevelOrders l)
     \<and> (\<forall>a \<in> set (LevelOrders l). Price (h a) = LevelPrice l \<and> resting_ok (h a))"

definition baddrs :: "OrderBook \<Rightarrow> addr list" where
  "baddrs b = addrs (Bids b) @ addrs (Asks b)"

definition book_wf :: "store \<Rightarrow> addr \<Rightarrow> OrderBook \<Rightarrow> bool" where
  "book_wf h n b \<longleftrightarrow> distinct (baddrs b) \<and> (\<forall>a \<in> set (baddrs b). a < n)
     \<and> (\<forall>l \<in> set (Bids b) \<union> set (Asks b). level_ok h l)"

definition engine_wf :: "MatchingEngine \<Rightarrow> bool" where
  "engine_wf me \<longleftrightarrow>
     (\<forall>k b. books me k = Some b \<longrightarrow> book_wf (heap me) (next_addr me) b)
     \<and> (\<forall>k k' b b'. k \<noteq> k' \<longrightarrow> books me k = Some b \<longrightarrow> books me k' = Some b' \<longrightarrow>
           set (baddrs b) \<inter> set (baddrs b') = {})"

definition book_remaining :: "store \<Rightarrow> OrderBook \<Rightarrow> int" where
  "book_remaining h b = queue_remaining h (baddrs b)"

definition pkey :: "OrderSide \<Rightarrow> int64 \<Rightarrow> int" where
  "pkey sd p = (if sd = BUY then sint p else - sint p)"

definition other :: "OrderSide \<Rightarrow> OrderSide" where
  "other sd = (if sd = BUY then SELL else BUY)"

definition ladder_sorted :: "OrderSide \<Rightarrow> PriceLevel list \<Rightarrow> bool" where
  "ladder_sorted sd ls \<longleftrightarrow> sorted_wrt (<) (map (\<lambda>l. pkey sd (LevelPrice l)) ls)"

definition book_inv :: "OrderBook \<Rightarrow> bool" where
  "book_inv b \<longleftrightarrow> ladder_sorted BUY (Asks b) \<and> ladder_sorted SELL (Bids b)
     \<and> (\<forall>l \<in> set (Bids b). \<forall>l' \<in> set (Asks b). LevelPrice l <s LevelPrice l')"


datatype Op =
    Submit Env string OrderSide OrderType int64 int64
  | Cancel "string list" string

fun apply_op :: "MatchingEngine \<Rightarrow> Op \<Rightarrow> MatchingEngine" where
  "apply_op me (Submit e symbol sd ty price qty) = snd (SubmitOrder e symbol sd ty price qty me)"
| "apply_op me (Cancel ks orderID) = snd (CancelOrder ks orderID me)"

definition run :: "Op list \<Rightarrow> MatchingEngine" where
  "run ops = foldl apply_op NewMatchingEngine ops"


definition qeq :: "Order \<Rightarrow> Order \<Rightarrow> bool" where
  "qeq x y \<longleftrightarrow> Price x = Price y \<and> Quantity x = Quantity y \<and> FilledQuantity x = FilledQuantity y"

type_synonym submission = "string \<times> OrderSide \<times> OrderType \<times> int64 \<times> int64"

text \<open>A run: the submissions in order, each with the environment (\<^verbatim>\<open>uuid.New()\<close>,
  \<^verbatim>\<open>time.Now()\<close>) that it meets.  The trades of a run are the trades of the successful
  submissions, in the order of emission.\<close>

fun emitted_from :: "MatchingEngine \<Rightarrow> (Env \<times> submission) list \<Rightarrow> Trade list" where
  "emitted_from me [] = []"
| "emitted_from me ((e, symbol, side, orderType, price, quantity) # rest) =
     (case SubmitOrder e symbol side orderType price quantity me of
        (Inl err, me') \<Rightarrow> emitted_from me' rest
      | (Inr result, me') \<Rightarrow> Trades result @ emitted_from me' rest)"

definition emitted :: "(Env \<times> submission) list \<Rightarrow> Trade list" where
  "emitted rn = emitted_from NewMatchingEngine rn"

text \<open>The ids that \<open>NewOrder\<close> gives to the orders of a run, by submission.\<close>

fun order_ids :: "(Env \<times> submission) list \<Rightarrow> string list" where
  "order_ids [] = []"
| "order_ids ((e, symbol, side, orderType, price, quantity) # rest) =
     ID (NewOrder e symbol side orderType price quantity) # order_ids rest"

text \<open>Two trades compared on price, quantity and counterparties; \<open>P\<close> pairs the order ids
  of the two runs.\<close>

definition same_trade :: "(string \<times> string) set \<Rightarrow> Trade \<Rightarrow> Trade \<Rightarrow> bool" where
  "same_trade P t1 t2 \<longleftrightarrow> TradePrice t1 = TradePrice t2 \<and> TradeQuantity t1 = TradeQuantity t2
     \<and> (BuyerID t1, BuyerID t2) \<in> P \<and> (SellerID t1, SellerID t2) \<in> P"

text \<open>Two orders that differ at most in id and timestamp.\<close>

definition cell_sim :: "Order \<Rightarrow> Order \<Rightarrow> bool" where
  "cell_sim x y \<longleftrightarrow> Symbol x = Symbol y \<and> Side x = Side y \<and> Type x = Type y
     \<and> Price x = Price y \<and> Quantity x = Quantity y \<and> FilledQuantity x = FilledQuantity y
     \<and> Status x = Status y"

definition engine_sim :: "(string \<times> string) set \<Rightarrow> MatchingEngine \<Rightarrow> MatchingEngine \<Rightarrow> bool" where
  "engine_sim P me1 me2 \<longleftrightarrow> next_addr me1 = next_addr me2
     \<and> (\<forall>k. Bids (the_book k me1) = Bids (the_book k me2)
            \<and> Asks (the_book k me1) = Asks (the_book k me2))
     \<and> (\<forall>a. cell_sim (heap me1 a) (heap me2 a))
     \<and> (\<forall>a < next_addr me1. (ID (heap me1 a), ID (heap me2 a)) \<in> P)"

section \<open>Scenarios\<close>

text \<open>An environment whose \<^verbatim>\<open>uuid.New()\<close> gives the order the id \<open>oid\<close>.\<close>

definition env_of :: "string \<Rightarrow> Env" where
  "env_of oid = \<lparr>uuid_New = (\<lambda>k. if k = 0 then oid else ''t''), time_Now = (\<lambda>_. 0)\<rparr>"

lemmas submit_defs =
  SubmitOrder_def env_of_def NewMatchingEngine_def GetOrCreateBook_def NewOrderBook_def
  NewOrder_def matchOrder_def matchLimitOrder_def matchMarketOrder_def matchSellOrder_def
  matchBuyOrder_def AddOrder_def addToAsks_def addToBids_def matchBuyLoop_eq matchSellLoop_eq
  availableLiquidity_def is_open_def price_stop_def trade_qty_def fill_def mk_trade_def
  min64_def Let_def word_sless_alt word_sle_eq

text \<open>A resting SELL LIMIT 100 @ 15050 on AAPL.\<close>

definition one_ask :: MatchingEngine where
  "one_ask = snd (SubmitOrder (env_of ''s1'') ''AAPL'' SELL LIMIT 15050 100 NewMatchingEngine)"

text \<open>A resting BUY LIMIT 100 @ 15000 on AAPL, and the state after its cancellation.\<close>

definition one_bid :: MatchingEngine where
  "one_bid = snd (SubmitOrder (env_of ''b1'') ''AAPL'' BUY LIMIT 15000 100 NewMatchingEngine)"

definition one_bid_cancelled :: MatchingEngine where
  "one_bid_cancelled = snd (CancelOrder [''AAPL''] ''b1'' one_bid)"

text \<open>Two resting SELL LIMIT orders of \<open>2^62\<close> each at price 1 on AAPL.\<close>

definition huge_asks :: MatchingEngine where
  "huge_asks =
     snd (SubmitOrder (env_of ''s2'') ''AAPL'' SELL LIMIT 1 4611686018427387904
       (snd (SubmitOrder (env_of ''s1'') ''AAPL'' SELL LIMIT 1 4611686018427387904
          NewMatchingEngine)))"

text \<open>Three resting SELL LIMIT orders of 100 @ 15050 on AAPL, submitted in the order
  \<open>s1\<close>, \<open>s2\<close>, \<open>s3\<close>.\<close>

definition three_asks :: MatchingEngine where
  "three_asks =
     snd (SubmitOrder (env_of ''s3'') ''AAPL'' SELL LIMIT 15050 100
       (snd (SubmitOrder (env_of ''s2'') ''AAPL'' SELL LIMIT 15050 100 one_ask)))"


text \<open>As \<open>env_of\<close>, with the trade ids and the clock chosen too.\<close>

definition env_at :: "string \<Rightarrow> string \<Rightarrow> int64 \<Rightarrow> Env" where
  "env_at oid tid t = \<lparr>uuid_New = (\<lambda>k. if k = 0 then oid else tid), time_Now = (\<lambda>_. t)\<rparr>"

text \<open>Two asks at two prices, then a BUY LIMIT 150 @ 15060 that takes the first and half of
  the second; the environments are those of \<open>env_of\<close>.\<close>

definition run_a :: "(Env \<times> submission) list" where
  "run_a = [(env_of ''s1'', ''AAPL'', SELL, LIMIT, 15050, 100),
            (env_of ''s2'', ''AAPL'', SELL, LIMIT, 15060, 100),
            (env_of ''b1'', ''AAPL'', BUY, LIMIT, 15060, 150)]"

text \<open>The submissions of \<open>run_a\<close> with other order ids, trade ids and clock than those of
  \<open>env_of\<close>.\<close>

definition run_b :: "(Env \<times> submission) list" where
  "run_b = [(env_at ''u1'' ''v1'' 7, ''AAPL'', SELL, LIMIT, 15050, 100),
            (env_at ''u2'' ''v2'' 8, ''AAPL'', SELL, LIMIT, 15060, 100),
            (env_at ''u3'' ''v3'' 9, ''AAPL'', BUY, LIMIT, 15060, 150)]"

section \<open>Properties of the match loops and of the registry\<close>

lemma GetOrder_NotFound:
  "(\<And>k b. books me k = Some b \<Longrightarrow> Orders b oid = None) \<Longrightarrow> GetOrder ks oid me = Inl NotFound"
  by (induction ks) (auto split: option.splits)

lemma one_ask_eq:
  "one_ask = \<lparr>books = [''AAPL'' \<mapsto> \<lparr>BookSymbol = ''AAPL'', Bids = [],
       Asks = [\<lparr>LevelPrice = 15050, LevelOrders = [0]\<rparr>], Orders = [''s1'' \<mapsto> 0]\<rparr>],
     heap = (\<lambda>_. placeholder)(0 := \<lparr>ID = ''s1'', Symbol = ''AAPL'', Side = SELL, Type = LIMIT,
       Price = 15050, Quantity = 100, FilledQuantity = 0, Status = ACCEPTED, Timestamp = 0\<rparr>),
     next_addr = 1\<rparr>"
  by (simp add: one_ask_def submit_defs)

lemma one_bid_eq:
  "one_bid = \<lparr>books = [''AAPL'' \<mapsto> \<lparr>BookSymbol = ''AAPL'',
       Bids = [\<lparr>LevelPrice = 15000, LevelOrders = [0]\<rparr>], Asks = [],
       Orders = [''b1'' \<mapsto> 0]\<rparr>],
     heap = (\<lambda>_. placeholder)(0 := \<lparr>ID = ''b1'', Symbol = ''AAPL'', Side = BUY, Type = LIMIT,
       Price = 15000, Quantity = 100, FilledQuantity = 0, Status = ACCEPTED, Timestamp = 0\<rparr>),
     next_addr = 1\<rparr>"
  by (simp add: one_bid_def submit_defs)

lemma one_bid_cancelled_eq:
  "one_bid_cancelled = \<lparr>books = [''AAPL'' \<mapsto> \<lparr>BookSymbol = ''AAPL'',
       Bids = [], Asks = [], Orders = [''b1'' \<mapsto> 0]\<rparr>],
     heap = (\<lambda>_. placeholder)(0 := \<lparr>ID = ''b1'', Symbol = ''AAPL'', Side = BUY, Type = LIMIT,
       Price = 15000, Quantity = 100, FilledQuantity = 0, Status = CANCELLED, Timestamp = 0\<rparr>),
     next_addr = 1\<rparr>"
  by (simp add: one_bid_cancelled_def one_bid_eq RemoveOrder_def removeFromBids_def)

lemma static_eq_refl [simp]: "static_eq x x"
  by (simp add: static_eq_def)

lemma static_eq_fill [simp]:
  "static_eq (fill q x) y = static_eq x y" "static_eq y (fill q x) = static_eq y x"
  "static_eq (x\<lparr>Status := s\<rparr>) y = static_eq x y" "static_eq y (x\<lparr>Status := s\<rparr>) = static_eq y x"
  "static_eq (x\<lparr>FilledQuantity := q\<rparr>) y = static_eq x y"
  "static_eq y (x\<lparr>FilledQuantity := q\<rparr>) = static_eq y x"
  by (auto simp: static_eq_def fill_def)

lemma static_eq_trans: "static_eq x y \<Longrightarrow> static_eq y z \<Longrightarrow> static_eq x z"
  by (simp add: static_eq_def)

lemma matchLevel_aggressor:
  "matchLevel sd e h os x ts = (h', os', x', ts') \<Longrightarrow> static_eq x' x \<and> Status x' = Status x"
proof (induction os arbitrary: h x ts)
  case Nil
  then show ?case by simp
next
  case (Cons r os)
  show ?case
  proof (cases "is_open x \<and> trade_qty x (h r) = Quantity (h r) - FilledQuantity (h r)")
    case True
    with Cons.prems have "static_eq x' (fill (trade_qty x (h r)) x)
        \<and> Status x' = Status (fill (trade_qty x (h r)) x)"
      by (auto dest: Cons.IH)
    then show ?thesis by (simp add: fill_def)
  next
    case False
    with Cons.prems show ?thesis by (auto simp: fill_def split: if_splits)
  qed
qed

lemma matchLevel_static:
  "matchLevel sd e h os x ts = (h', os', x', ts') \<Longrightarrow> static_eq (h' a) (h a)"
proof (induction os arbitrary: h x ts)
  case Nil
  then show ?case by simp
next
  case (Cons r os)
  show ?case
  proof (cases "is_open x \<and> trade_qty x (h r) = Quantity (h r) - FilledQuantity (h r)")
    case True
    with Cons.prems have "static_eq (h' a)
        ((h(r := (fill (trade_qty x (h r)) (h r))\<lparr>Status := FILLED\<rparr>)) a)"
      by (auto dest: Cons.IH)
    then show ?thesis by (cases "a = r") simp_all
  next
    case False
    with Cons.prems show ?thesis by (auto split: if_splits)
  qed
qed

lemma matchLevel_frame:
  "matchLevel sd e h os x ts = (h', os', x', ts') \<Longrightarrow> a \<notin> set os \<Longrightarrow> h' a = h a"
proof (induction os arbitrary: h x ts)
  case Nil
  then show ?case by simp
next
  case (Cons r os)
  show ?case
  proof (cases "is_open x \<and> trade_qty x (h r) = Quantity (h r) - FilledQuantity (h r)")
    case True
    with Cons.prems have "h' a = (h(r := (fill (trade_qty x (h r)) (h r))\<lparr>Status := FILLED\<rparr>)) a"
      by (auto dest: Cons.IH)
    with Cons.prems show ?thesis by simp
  next
    case False
    with Cons.prems show ?thesis by (auto split: if_splits)
  qed
qed

lemma matchLevel_suffix:
  "matchLevel sd e h os x ts = (h', os', x', ts') \<Longrightarrow> \<exists>done. os = done @ os'"
proof (induction os arbitrary: h x ts)
  case Nil
  then show ?case by simp
next
  case (Cons r os)
  show ?case
  proof (cases "is_open x \<and> trade_qty x (h r) = Quantity (h r) - FilledQuantity (h r)")
    case True
    with Cons.prems obtain d where "os = d @ os'" by (auto dest: Cons.IH)
    then have "r # os = (r # d) @ os'" by simp
    then show ?thesis by blast
  next
    case False
    with Cons.prems show ?thesis by (auto split: if_splits)
  qed
qed

lemma matchLevel_exit:
  "matchLevel sd e h os x ts = (h', os', x', ts') \<Longrightarrow> os' = [] \<or> \<not> is_open x'"
  using matchBuyLevel_exit matchSellLevel_exit
  by (cases sd) (auto simp: matchBuyLevel_eq matchSellLevel_eq is_open_def)

text \<open>The trades of a level: one per order of a prefix of the queue, in queue order, at
  that order's price.\<close>

lemma matchLevel_trades:
  "matchLevel sd e h os x ts = (h', os', x', ts') \<Longrightarrow>
     \<exists>new. ts' = ts @ new \<and> length new \<le> length os
       \<and> (os' = [] \<longrightarrow> length new = length os)
       \<and> map (\<lambda>t. (TradePrice t, counterparty sd t)) new
           = map (\<lambda>a. (Price (h a), ID (h a))) (take (length new) os)
       \<and> (\<forall>t \<in> set new. aggressor sd t = ID x)"
proof (induction os arbitrary: h x ts)
  case Nil
  then show ?case by simp
next
  case (Cons r os)
  let ?q = "trade_qty x (h r)"
  let ?t = "mk_trade sd e (length ts) x (h r) ?q"
  have t: "TradePrice ?t = Price (h r)" "counterparty sd ?t = ID (h r)" "aggressor sd ?t = ID x"
    by (simp_all add: mk_trade_def counterparty_def aggressor_def)
  show ?case
  proof (cases "is_open x")
    case False
    with Cons.prems show ?thesis by auto
  next
    case op: True
    show ?thesis
    proof (cases "?q = Quantity (h r) - FilledQuantity (h r)")
      case False
      with op Cons.prems have "ts' = ts @ [?t]" "os' = r # os" by auto
      with t show ?thesis by (intro exI [of _ "[?t]"]) simp
    next
      case True
      let ?h = "h(r := (fill ?q (h r))\<lparr>Status := FILLED\<rparr>)"
      from True op Cons.prems
      have m: "matchLevel sd e ?h os (fill ?q x) (ts @ [?t]) = (h', os', x', ts')" by simp
      from Cons.IH [OF m] obtain new where new: "ts' = (ts @ [?t]) @ new" "length new \<le> length os"
        "os' = [] \<longrightarrow> length new = length os"
        "map (\<lambda>t. (TradePrice t, counterparty sd t)) new
           = map (\<lambda>a. (Price (?h a), ID (?h a))) (take (length new) os)"
        "\<forall>t \<in> set new. aggressor sd t = ID (fill ?q x)"
        by blast
      have st: "Price (?h a) = Price (h a)" "ID (?h a) = ID (h a)" for a
        by (simp_all add: fill_def)
      from new t show ?thesis
        by (intro exI [of _ "?t # new"]) (simp add: st fill_def)
    qed
  qed
qed

lemma addrs_simps [simp]:
  "addrs [] = []" "addrs (l # ls) = LevelOrders l @ addrs ls" "addrs (ls @ ls') = addrs ls @ addrs ls'"
  by (simp_all add: addrs_def)

lemma matchLoop_aggressor:
  "matchLoop sd e h ls x ts = (h', ls', x', ts') \<Longrightarrow> static_eq x' x \<and> Status x' = Status x"
proof (induction ls arbitrary: h x ts)
  case Nil
  then show ?case by simp
next
  case (Cons l ls)
  obtain h1 os1 x1 ts1 where m: "matchLevel sd e h (LevelOrders l) x ts = (h1, os1, x1, ts1)"
    by (cases "matchLevel sd e h (LevelOrders l) x ts") auto
  note a = matchLevel_aggressor [OF m]
  show ?case
  proof (cases "is_open x \<and> \<not> price_stop sd x l \<and> os1 = []")
    case True
    with Cons.prems m have "matchLoop sd e h1 ls x1 ts1 = (h', ls', x', ts')" by simp
    from Cons.IH [OF this] a show ?thesis by (auto intro: static_eq_trans)
  next
    case False
    with Cons.prems m a show ?thesis by (auto split: if_splits)
  qed
qed

lemma matchLoop_static:
  "matchLoop sd e h ls x ts = (h', ls', x', ts') \<Longrightarrow> static_eq (h' a) (h a)"
proof (induction ls arbitrary: h x ts)
  case Nil
  then show ?case by simp
next
  case (Cons l ls)
  obtain h1 os1 x1 ts1 where m: "matchLevel sd e h (LevelOrders l) x ts = (h1, os1, x1, ts1)"
    by (cases "matchLevel sd e h (LevelOrders l) x ts") auto
  note a = matchLevel_static [OF m, of a]
  show ?case
  proof (cases "is_open x \<and> \<not> price_stop sd x l \<and> os1 = []")
    case True
    with Cons.prems m have "matchLoop sd e h1 ls x1 ts1 = (h', ls', x', ts')" by simp
    from Cons.IH [OF this] a show ?thesis by (auto intro: static_eq_trans)
  next
    case False
    with Cons.prems m a show ?thesis by (auto split: if_splits)
  qed
qed

lemma matchLoop_frame:
  "matchLoop sd e h ls x ts = (h', ls', x', ts') \<Longrightarrow> a \<notin> set (addrs ls) \<Longrightarrow> h' a = h a"
proof (induction ls arbitrary: h x ts)
  case Nil
  then show ?case by simp
next
  case (Cons l ls)
  obtain h1 os1 x1 ts1 where m: "matchLevel sd e h (LevelOrders l) x ts = (h1, os1, x1, ts1)"
    by (cases "matchLevel sd e h (LevelOrders l) x ts") auto
  from Cons.prems have "a \<notin> set (LevelOrders l)" "a \<notin> set (addrs ls)" by simp_all
  note a = matchLevel_frame [OF m \<open>a \<notin> set (LevelOrders l)\<close>]
  show ?case
  proof (cases "is_open x \<and> \<not> price_stop sd x l \<and> os1 = []")
    case True
    with Cons.prems m have "matchLoop sd e h1 ls x1 ts1 = (h', ls', x', ts')" by simp
    from Cons.IH [OF this \<open>a \<notin> set (addrs ls)\<close>] a show ?thesis by simp
  next
    case False
    with Cons.prems(1) m a show ?thesis by (auto split: if_splits)
  qed
qed

text \<open>What is left of the ladder: nothing, or a tail of it whose first level keeps a tail
  of its queue.\<close>

lemma matchLoop_ladder:
  "matchLoop sd e h ls x ts = (h', ls', x', ts') \<Longrightarrow>
     (ls' = [] \<and> (ls \<noteq> [] \<longrightarrow> is_open x)) \<or>
     (\<exists>pre l rest d os'. ls = pre @ l # rest \<and> LevelOrders l = d @ os'
        \<and> ls' = l\<lparr>LevelOrders := os'\<rparr> # rest
        \<and> (\<not> is_open x' \<or> price_stop sd x' l)
        \<and> ((pre \<noteq> [] \<or> d \<noteq> []) \<longrightarrow> is_open x \<and> \<not> price_stop sd x (hd ls)))"
proof (induction ls arbitrary: h x ts)
  case Nil
  then show ?case by simp
next
  case (Cons l ls)
  obtain h1 os1 x1 ts1 where m: "matchLevel sd e h (LevelOrders l) x ts = (h1, os1, x1, ts1)"
    by (cases "matchLevel sd e h (LevelOrders l) x ts") auto
  show ?case
  proof (cases "is_open x \<and> \<not> price_stop sd x l")
    case False
    with Cons.prems have r: "ls' = l # ls" "x' = x" by auto
    have "l # ls = [] @ l # ls \<and> LevelOrders l = [] @ LevelOrders l
        \<and> ls' = l\<lparr>LevelOrders := LevelOrders l\<rparr> # ls
        \<and> (\<not> is_open x' \<or> price_stop sd x' l)
        \<and> (([] \<noteq> ([]::PriceLevel list) \<or> [] \<noteq> ([]::addr list)) \<longrightarrow> is_open x \<and> \<not> price_stop sd x (hd (l # ls)))"
      using False r by simp
    then show ?thesis by blast
  next
    case go: True
    show ?thesis
    proof (cases "os1 = []")
      case False
      from matchLevel_suffix [OF m] obtain d where d: "LevelOrders l = d @ os1" by blast
      from matchLevel_exit [OF m] False have "\<not> is_open x1" by simp
      with go False Cons.prems m d
      have "l # ls = [] @ l # ls \<and> LevelOrders l = d @ os1
        \<and> ls' = l\<lparr>LevelOrders := os1\<rparr> # ls
        \<and> (\<not> is_open x' \<or> price_stop sd x' l)
        \<and> (([] \<noteq> ([]::PriceLevel list) \<or> d \<noteq> []) \<longrightarrow> is_open x \<and> \<not> price_stop sd x (hd (l # ls)))"
        by auto
      then show ?thesis by blast
    next
      case True
      with go Cons.prems m have r: "matchLoop sd e h1 ls x1 ts1 = (h', ls', x', ts')" by simp
      from Cons.IH [OF r] consider (empty) "ls' = []"
        | (some) pre l2 rest d os' where "ls = pre @ l2 # rest" "LevelOrders l2 = d @ os'"
          "ls' = l2\<lparr>LevelOrders := os'\<rparr> # rest" "\<not> is_open x' \<or> price_stop sd x' l2"
        by blast
      then show ?thesis
      proof cases
        case empty
        with go show ?thesis by simp
      next
        case some
        with go have "l # ls = (l # pre) @ l2 # rest \<and> LevelOrders l2 = d @ os'
          \<and> ls' = l2\<lparr>LevelOrders := os'\<rparr> # rest
          \<and> (\<not> is_open x' \<or> price_stop sd x' l2)
          \<and> ((l # pre \<noteq> [] \<or> d \<noteq> []) \<longrightarrow> is_open x \<and> \<not> price_stop sd x (hd (l # ls)))"
          by simp
        then show ?thesis by blast
      qed
    qed
  qed
qed

lemma trades_from_queue:
  assumes "map (\<lambda>t. (TradePrice t, counterparty sd t)) new
             = map (\<lambda>a. (Price (h a), ID (h a))) (take (length new) os)"
    and "t \<in> set new"
  shows "\<exists>a \<in> set os. TradePrice t = Price (h a) \<and> counterparty sd t = ID (h a)"
proof -
  from assms(2) have "(TradePrice t, counterparty sd t)
      \<in> set (map (\<lambda>t. (TradePrice t, counterparty sd t)) new)" by force
  then have "(TradePrice t, counterparty sd t)
      \<in> set (map (\<lambda>a. (Price (h a), ID (h a))) (take (length new) os))"
    by (simp only: assms(1))
  then obtain a where "a \<in> set (take (length new) os)"
    "TradePrice t = Price (h a)" "counterparty sd t = ID (h a)" by auto
  then show ?thesis by (meson in_set_takeD)
qed

lemma matchLoop_trades:
  "matchLoop sd e h ls x ts = (h', ls', x', ts') \<Longrightarrow>
     \<exists>new. ts' = ts @ new \<and> length new \<le> length (addrs ls)
       \<and> map (\<lambda>t. (TradePrice t, counterparty sd t)) new
           = map (\<lambda>a. (Price (h a), ID (h a))) (take (length new) (addrs ls))
       \<and> (\<forall>t \<in> set new. aggressor sd t = ID x)"
proof (induction ls arbitrary: h x ts)
  case Nil
  then show ?case by simp
next
  case (Cons l ls)
  obtain h1 os1 x1 ts1 where m: "matchLevel sd e h (LevelOrders l) x ts = (h1, os1, x1, ts1)"
    by (cases "matchLevel sd e h (LevelOrders l) x ts") auto
  from matchLevel_trades [OF m] obtain new1 where new1: "ts1 = ts @ new1"
    "length new1 \<le> length (LevelOrders l)" "os1 = [] \<longrightarrow> length new1 = length (LevelOrders l)"
    "map (\<lambda>t. (TradePrice t, counterparty sd t)) new1
       = map (\<lambda>a. (Price (h a), ID (h a))) (take (length new1) (LevelOrders l))"
    "\<forall>t \<in> set new1. aggressor sd t = ID x"
    by blast
  show ?case
  proof (cases "is_open x \<and> \<not> price_stop sd x l")
    case False
    with Cons.prems show ?thesis by auto
  next
    case go: True
    show ?thesis
    proof (cases "os1 = []")
      case False
      with go Cons.prems m have "ts' = ts1" by simp
      with new1 show ?thesis by (intro exI [of _ new1]) simp
    next
      case True
      with go Cons.prems m have r: "matchLoop sd e h1 ls x1 ts1 = (h', ls', x', ts')" by simp
      from Cons.IH [OF r] obtain new2 where new2: "ts' = ts1 @ new2"
        "length new2 \<le> length (addrs ls)"
        "map (\<lambda>t. (TradePrice t, counterparty sd t)) new2
           = map (\<lambda>a. (Price (h1 a), ID (h1 a))) (take (length new2) (addrs ls))"
        "\<forall>t \<in> set new2. aggressor sd t = ID x1"
        by blast
      have st: "Price (h1 a) = Price (h a)" "ID (h1 a) = ID (h a)" for a
        using matchLevel_static [OF m, of a] by (simp_all add: static_eq_def)
      have x1: "ID x1 = ID x"
        using matchLevel_aggressor [OF m] by (simp add: static_eq_def)
      from True new1 have len: "length new1 = length (LevelOrders l)" by simp
      from new1 new2 len x1 show ?thesis
        by (intro exI [of _ "new1 @ new2"]) (auto simp: st)
    qed
  qed
qed

lemma not_price_stop_within:
  "\<not> price_stop sd x l \<Longrightarrow> within_limit sd x (LevelPrice l)"
  by (auto simp: price_stop_def within_limit_def word_sless_alt word_sle_eq)

lemma matchLoop_within_limit:
  "matchLoop sd e h ls x ts = (h', ls', x', ts') \<Longrightarrow>
   \<forall>l \<in> set ls. \<forall>a \<in> set (LevelOrders l). Price (h a) = LevelPrice l \<Longrightarrow>
     \<exists>new. ts' = ts @ new \<and> (\<forall>t \<in> set new. within_limit sd x (TradePrice t))"
proof (induction ls arbitrary: h x ts)
  case Nil
  then show ?case by simp
next
  case (Cons l ls)
  obtain h1 os1 x1 ts1 where m: "matchLevel sd e h (LevelOrders l) x ts = (h1, os1, x1, ts1)"
    by (cases "matchLevel sd e h (LevelOrders l) x ts") auto
  from matchLevel_trades [OF m] obtain new1 where new1: "ts1 = ts @ new1"
    "map (\<lambda>t. (TradePrice t, counterparty sd t)) new1
       = map (\<lambda>a. (Price (h a), ID (h a))) (take (length new1) (LevelOrders l))"
    by blast
  show ?case
  proof (cases "is_open x \<and> \<not> price_stop sd x l")
    case False
    with Cons.prems show ?thesis by auto
  next
    case go: True
    have in1: "within_limit sd x (TradePrice t)" if "t \<in> set new1" for t
    proof -
      from trades_from_queue [OF new1(2) that] obtain a where
        "a \<in> set (LevelOrders l)" "TradePrice t = Price (h a)" by blast
      with Cons.prems(2) have "TradePrice t = LevelPrice l" by simp
      with go show ?thesis by (simp add: not_price_stop_within)
    qed
    show ?thesis
    proof (cases "os1 = []")
      case False
      with go Cons.prems m have "ts' = ts1" by simp
      with new1 in1 show ?thesis by (intro exI [of _ new1]) simp
    next
      case True
      with go Cons.prems m have r: "matchLoop sd e h1 ls x1 ts1 = (h', ls', x', ts')" by simp
      have st: "Price (h1 a) = Price (h a)" for a
        using matchLevel_static [OF m, of a] by (simp add: static_eq_def)
      from Cons.prems(2) have "\<forall>l \<in> set ls. \<forall>a \<in> set (LevelOrders l). Price (h1 a) = LevelPrice l"
        by (simp add: st)
      from Cons.IH [OF r this] obtain new2 where new2: "ts' = ts1 @ new2"
        "\<forall>t \<in> set new2. within_limit sd x1 (TradePrice t)" by blast
      have "within_limit sd x1 = within_limit sd x"
        using matchLevel_aggressor [OF m] by (simp add: within_limit_def static_eq_def fun_eq_iff)
      with new1 new2 in1 show ?thesis
        by (intro exI [of _ "new1 @ new2"]) auto
    qed
  qed
qed

lemma matchLoop_no_cross:
  "ls = [] \<or> price_stop sd x (hd ls) \<Longrightarrow> matchLoop sd e h ls x ts = (h, ls, x, ts)"
  by (cases ls) auto

lemma the_book_simps:
  "books me symbol = Some b \<Longrightarrow> the_book symbol me = b"
  "books me symbol = None \<Longrightarrow> the_book symbol me = NewOrderBook symbol"
  by (simp_all add: the_book_def GetOrCreateBook_def)

lemma matchBuyOrder_eq:
  "matchBuyOrder e h b x =
     (case matchLoop BUY e h (opposing BUY b) x [] of
        (h', ls', x', ts) \<Rightarrow> (h', set_opposing BUY ls' b, x', ts))"
  by (simp add: matchBuyOrder_def matchBuyLoop_eq opposing_def set_opposing_def)

lemma matchSellOrder_eq:
  "matchSellOrder e h b x =
     (case matchLoop SELL e h (opposing SELL b) x [] of
        (h', ls', x', ts) \<Rightarrow> (h', set_opposing SELL ls' b, x', ts))"
  by (simp add: matchSellOrder_def matchSellLoop_eq opposing_def set_opposing_def)

lemma matchOrder_eq:
  "matchOrder e h b x =
     (if Type x = MARKET \<and> availableLiquidity h (opposing (Side x) b) <s Quantity x
      then Inl (InsufficientLiquidity (availableLiquidity h (opposing (Side x) b)) (Quantity x))
      else (case matchLoop (Side x) e h (opposing (Side x) b) x [] of
              (h', ls', x', ts) \<Rightarrow> Inr (h', set_opposing (Side x) ls' b, x', ts)))"
  by (cases "Side x")
     (auto simp: matchOrder_def matchMarketOrder_def matchLimitOrder_def matchBuyOrder_eq
        matchSellOrder_eq Let_def opposing_def split: prod.splits)

lemma GetOrCreateBook_eq:
  "GetOrCreateBook symbol me =
     (the_book symbol me, me\<lparr>books := (books me)(symbol \<mapsto> the_book symbol me)\<rparr>)"
  by (auto simp: GetOrCreateBook_def the_book_def fun_upd_idem split: option.splits)

text \<open>The successful submission, step by step.\<close>

lemma SubmitOrder_Inr:
  assumes "SubmitOrder e symbol sd ty price qty me = (Inr r, me')"
  obtains h' ls' x' where
    "matchLoop sd e (heap me) (opposing sd (the_book symbol me))
        (NewOrder e symbol sd ty price qty) [] = (h', ls', x', Trades r)"
    "\<not> qty \<le>s 0" "ty = LIMIT \<longrightarrow> \<not> price \<le>s 0"
    "ty = MARKET \<longrightarrow> \<not> availableLiquidity (heap me) (opposing sd (the_book symbol me)) <s qty"
    "OrderID r = uuid_New e 0" "ResultFilledQuantity r = FilledQuantity x'"
    "rests ty x' \<longrightarrow>
       me' = me\<lparr>books := (books me)(symbol \<mapsto>
                 AddOrder (h'(next_addr me := x')) (next_addr me)
                   (set_opposing sd ls' (the_book symbol me))),
               heap := h'(next_addr me := x'), next_addr := Suc (next_addr me)\<rparr>
       \<and> RemainingQuantity r = Quantity x' - FilledQuantity x'
       \<and> ResultStatus r = (if 0 <s FilledQuantity x' then PARTIAL_FILL else ACCEPTED)"
    "\<not> rests ty x' \<longrightarrow>
       me' = me\<lparr>books := (books me)(symbol \<mapsto> set_opposing sd ls' (the_book symbol me)),
               heap := h'\<rparr>
       \<and> RemainingQuantity r = 0
       \<and> ResultStatus r = (if FilledQuantity x' = Quantity x' then FILLED else Status x')"
proof -
  let ?x = "NewOrder e symbol sd ty price qty"
  let ?b = "the_book symbol me"
  have x: "Side ?x = sd" "Type ?x = ty" "Quantity ?x = qty" by (simp_all add: NewOrder_def)
  obtain h' ls' x' ts where m:
    "matchLoop sd e (heap me) (opposing sd ?b) ?x [] = (h', ls', x', ts)"
    by (cases "matchLoop sd e (heap me) (opposing sd ?b) ?x []") auto
  from assms have v: "\<not> qty \<le>s 0" "ty = LIMIT \<longrightarrow> \<not> price \<le>s 0"
    by (auto simp: SubmitOrder_def split: if_splits)
  from v have v2: "\<not> (ty = LIMIT \<and> price \<le>s 0)" by simp
  from assms v have liq:
    "ty = MARKET \<longrightarrow> \<not> availableLiquidity (heap me) (opposing sd ?b) <s qty"
    by (auto simp: SubmitOrder_def GetOrCreateBook_eq matchOrder_eq x split: if_splits)
  from liq m have mo: "matchOrder e (heap me) ?b ?x = Inr (h', set_opposing sd ls' ?b, x', ts)"
    by (simp add: matchOrder_eq x)
  from matchLoop_aggressor [OF m] have x': "ID x' = uuid_New e 0"
    by (simp add: static_eq_def NewOrder_def)
  have r: "(Inr r, me') =
     (let result = \<lparr>OrderID = ID x', ResultStatus = Status x',
                     ResultFilledQuantity = FilledQuantity x',
                     RemainingQuantity = 0, Trades = ts, Message = []\<rparr>
      in if FilledQuantity x' <s Quantity x' \<and> ty = LIMIT then
           let remaining = Quantity x' - FilledQuantity x';
               a = next_addr me;
               h'' = h'(a := x');
               book'' = AddOrder h'' a (set_opposing sd ls' ?b)
           in (Inr (if 0 <s FilledQuantity x'
                    then result\<lparr>RemainingQuantity := remaining,
                           ResultStatus := PARTIAL_FILL,
                           Message := ''Order partially filled and added to book''\<rparr>
                    else result\<lparr>RemainingQuantity := remaining,
                           ResultStatus := ACCEPTED,
                           Message := ''Order added to book''\<rparr>),
               me\<lparr>books := (books me)(symbol \<mapsto> book''), heap := h'',
                   next_addr := Suc a\<rparr>)
         else
           (Inr (if FilledQuantity x' = Quantity x'
                 then result\<lparr>ResultStatus := FILLED,
                        Message := ''Order fully filled''\<rparr>
                 else result),
            me\<lparr>books := (books me)(symbol \<mapsto> set_opposing sd ls' ?b), heap := h'\<rparr>))"
    using assms
    by (auto simp add: SubmitOrder_def GetOrCreateBook_eq mo v(1) v2 Let_def split: if_splits)
  show ?thesis
  proof (rule that [of h' ls' x'])
    show "matchLoop sd e (heap me) (opposing sd ?b) ?x [] = (h', ls', x', Trades r)"
      using r m by (auto simp: Let_def split: if_splits)
    show "OrderID r = uuid_New e 0"
      using r x' by (auto simp: Let_def split: if_splits)
    show "ResultFilledQuantity r = FilledQuantity x'"
      using r by (auto simp: Let_def split: if_splits)
    show "rests ty x' \<longrightarrow>
       me' = me\<lparr>books := (books me)(symbol \<mapsto>
                 AddOrder (h'(next_addr me := x')) (next_addr me)
                   (set_opposing sd ls' (the_book symbol me))),
               heap := h'(next_addr me := x'), next_addr := Suc (next_addr me)\<rparr>
       \<and> RemainingQuantity r = Quantity x' - FilledQuantity x'
       \<and> ResultStatus r = (if 0 <s FilledQuantity x' then PARTIAL_FILL else ACCEPTED)"
      using r by (auto simp: Let_def rests_def is_open_def split: if_splits)
    show "\<not> rests ty x' \<longrightarrow>
       me' = me\<lparr>books := (books me)(symbol \<mapsto> set_opposing sd ls' (the_book symbol me)),
               heap := h'\<rparr>
       \<and> RemainingQuantity r = 0
       \<and> ResultStatus r = (if FilledQuantity x' = Quantity x' then FILLED else Status x')"
      using r by (auto simp: Let_def rests_def is_open_def split: if_splits)
  qed (use v liq in simp_all)
qed

lemma SubmitOrder_Inl:
  assumes "SubmitOrder e symbol sd ty price qty me = (Inl err, me')"
  shows "(err = InvalidQuantity \<and> qty \<le>s 0 \<and> me' = me)
       \<or> (err = InvalidPrice \<and> \<not> qty \<le>s 0 \<and> ty = LIMIT \<and> price \<le>s 0 \<and> me' = me)
       \<or> (err = InsufficientLiquidity
                   (availableLiquidity (heap me) (opposing sd (the_book symbol me))) qty
           \<and> \<not> qty \<le>s 0 \<and> ty = MARKET
           \<and> availableLiquidity (heap me) (opposing sd (the_book symbol me)) <s qty
           \<and> me' = snd (GetOrCreateBook symbol me))"
  using assms
  by (auto simp: SubmitOrder_def GetOrCreateBook_eq matchOrder_eq NewOrder_def Let_def
      split: if_splits prod.splits)

lemma opposing_set_opposing [simp]:
  "opposing sd (set_opposing sd ls b) = ls"
  "own_side sd (set_opposing sd ls b) = own_side sd b"
  "Orders (set_opposing sd ls b) = Orders b"
  "set_opposing sd (opposing sd b) b = b"
  by (cases sd; simp add: opposing_def own_side_def set_opposing_def)+

lemma AddOrder_opposing [simp]:
  "Side (h a) = sd \<Longrightarrow> opposing sd (AddOrder h a b) = opposing sd b"
  by (cases sd) (simp_all add: AddOrder_def opposing_def Let_def)

lemma AddOrder_Orders [simp]:
  "Orders (AddOrder h a b) = (Orders b)(ID (h a) \<mapsto> a)"
  by (simp add: AddOrder_def Let_def)

lemma NewOrder_simps [simp]:
  "ID (NewOrder e symbol sd ty price qty) = uuid_New e 0"
  "Symbol (NewOrder e symbol sd ty price qty) = symbol"
  "Side (NewOrder e symbol sd ty price qty) = sd"
  "Type (NewOrder e symbol sd ty price qty) = ty"
  "Price (NewOrder e symbol sd ty price qty) = price"
  "Quantity (NewOrder e symbol sd ty price qty) = qty"
  "FilledQuantity (NewOrder e symbol sd ty price qty) = 0"
  "Status (NewOrder e symbol sd ty price qty) = ACCEPTED"
  "Timestamp (NewOrder e symbol sd ty price qty) = time_Now e 0"
  by (simp_all add: NewOrder_def)

lemma the_book_upd [simp]:
  "the_book symbol (me\<lparr>books := (books me)(symbol \<mapsto> b), heap := h, next_addr := n\<rparr>) = b"
  "the_book symbol (me\<lparr>books := (books me)(symbol \<mapsto> b), heap := h\<rparr>) = b"
  "the_book symbol (me\<lparr>books := (books me)(symbol \<mapsto> b)\<rparr>) = b"
  by (simp_all add: the_book_def GetOrCreateBook_def)

lemma the_book_one_ask:
  "the_book ''AAPL'' one_ask = \<lparr>BookSymbol = ''AAPL'', Bids = [],
       Asks = [\<lparr>LevelPrice = 15050, LevelOrders = [0]\<rparr>], Orders = [''s1'' \<mapsto> 0]\<rparr>"
  by (simp add: one_ask_eq the_book_def GetOrCreateBook_def)

lemma pair_collapse: "f = (fst f, snd f)"
  by simp

lemma fst_result: "fst p = a \<Longrightarrow> p = (a, snd p)"
  by (simp add: prod_eq_iff)

lemma GetOrder_found:
  assumes "symbol \<in> set ks" "books me symbol = Some b" "Orders b oid = Some a"
    and "\<And>k b'. k \<noteq> symbol \<Longrightarrow> books me k = Some b' \<Longrightarrow> Orders b' oid = None"
  shows "GetOrder ks oid me = Inr (heap me a)"
  using assms(1)
proof (induction ks)
  case Nil
  then show ?case by simp
next
  case (Cons k ks)
  show ?case
  proof (cases "k = symbol")
    case True
    with assms(2,3) show ?thesis by simp
  next
    case False
    with Cons have "GetOrder ks oid me = Inr (heap me a)" by simp
    with False assms(4) [of k] show ?thesis by (auto split: option.splits)
  qed
qed

lemma sint64_bounds: "- (2 ^ 63) \<le> sint (w :: int64)" "sint (w :: int64) < 2 ^ 63"
  using sint_ge [of w] sint_lt [of w] by simp_all

lemma sint64_diff:
  "- (2 ^ 63) \<le> sint a - sint b \<Longrightarrow> sint a - sint b < 2 ^ 63 \<Longrightarrow>
     sint (a - b :: int64) = sint a - sint b"
  by (simp add: sint_word_diff signed_take_bit_int_eq_self)

lemma sint64_add:
  "- (2 ^ 63) \<le> sint a + sint b \<Longrightarrow> sint a + sint b < 2 ^ 63 \<Longrightarrow>
     sint (a + b :: int64) = sint a + sint b"
  by (simp add: sint_word_add signed_take_bit_int_eq_self)

lemma sint_min64: "sint (min64 a b) = min (sint a) (sint b)"
  by (simp add: min64_def word_sless_alt min_def)

lemma open_remaining:
  assumes "0 \<le>s FilledQuantity x" "FilledQuantity x <s Quantity x"
  shows "sint (Quantity x - FilledQuantity x) = remaining x" "0 < remaining x"
proof -
  from assms have *: "0 \<le> sint (FilledQuantity x)" "sint (FilledQuantity x) < sint (Quantity x)"
    by (simp_all add: word_sle_eq word_sless_alt)
  with sint64_bounds [of "Quantity x"] show "sint (Quantity x - FilledQuantity x) = remaining x"
    by (simp add: remaining_def sint64_diff)
  from * show "0 < remaining x" by (simp add: remaining_def)
qed

lemma fill_sint:
  assumes "0 \<le>s FilledQuantity x" "0 \<le> sint q" "sint q \<le> remaining x"
  shows "sint (FilledQuantity (fill q x)) = sint (FilledQuantity x) + sint q"
    "remaining (fill q x) = remaining x - sint q"
proof -
  from assms have *: "0 \<le> sint (FilledQuantity x)"
    "sint (FilledQuantity x) + sint q \<le> sint (Quantity x)"
    by (simp_all add: word_sle_eq remaining_def)
  with sint64_bounds [of "Quantity x"] assms(2)
  show 1: "sint (FilledQuantity (fill q x)) = sint (FilledQuantity x) + sint q"
    by (simp add: fill_def sint64_add)
  then show "remaining (fill q x) = remaining x - sint q"
    by (simp add: remaining_def fill_def)
qed

text \<open>One step of the loop between an open aggressor and a resting order.\<close>

lemma trade_step:
  assumes x: "agg_ok x" "is_open x" and r: "resting_ok r"
  defines "q \<equiv> trade_qty x r"
  shows "sint q = min (remaining x) (remaining r)" "0 < sint q"
    "agg_ok (fill q x)" "remaining (fill q x) = remaining x - sint q"
    "sint (FilledQuantity (fill q x)) = sint (FilledQuantity x) + sint q"
    "remaining (fill q r) = remaining r - sint q"
    "q = Quantity r - FilledQuantity r \<longleftrightarrow> remaining r \<le> remaining x"
    "q \<noteq> Quantity r - FilledQuantity r \<Longrightarrow> resting_ok (fill q r)"
proof -
  from x have xo: "0 \<le>s FilledQuantity x" "FilledQuantity x <s Quantity x"
    by (simp_all add: agg_ok_def is_open_def)
  from r have ro: "0 \<le>s FilledQuantity r" "FilledQuantity r <s Quantity r"
    by (simp_all add: resting_ok_def)
  note rx = open_remaining [OF xo] and rr = open_remaining [OF ro]
  show q: "sint q = min (remaining x) (remaining r)"
    by (simp add: q_def trade_qty_def sint_min64 rx rr)
  with rx rr show pos: "0 < sint q" by simp
  from q pos have le: "0 \<le> sint q" "sint q \<le> remaining x" "sint q \<le> remaining r" by simp_all
  note fx = fill_sint [OF xo(1) le(1,2)] and fr = fill_sint [OF ro(1) le(1,3)]
  show "remaining (fill q x) = remaining x - sint q" by (rule fx)
  show "sint (FilledQuantity (fill q x)) = sint (FilledQuantity x) + sint q" by (rule fx)
  show "remaining (fill q r) = remaining r - sint q" by (rule fr)
  from fx le xo show "agg_ok (fill q x)"
    by (simp add: agg_ok_def word_sle_eq remaining_def)
  have "q = Quantity r - FilledQuantity r \<longleftrightarrow> sint q = remaining r"
    using rr(1) by (simp add: word_eq_iff_signed [where ?'a = int])
  with q show iff: "q = Quantity r - FilledQuantity r \<longleftrightarrow> remaining r \<le> remaining x"
    by auto
  show "resting_ok (fill q r)" if "q \<noteq> Quantity r - FilledQuantity r"
  proof -
    from that iff q have "sint q < remaining r" by auto
    with fr le ro show ?thesis
      by (simp add: resting_ok_def word_sle_eq word_sless_alt remaining_def)
  qed
qed

lemma status_irrelevant [simp]:
  "remaining (x\<lparr>Status := s\<rparr>) = remaining x"
  "resting_ok (x\<lparr>Status := s\<rparr>) = resting_ok x"
  by (simp_all add: remaining_def resting_ok_def)

lemma queue_remaining_simps [simp]:
  "queue_remaining h [] = 0"
  "queue_remaining h (a # os) = remaining (h a) + queue_remaining h os"
  "queue_remaining h (os @ os') = queue_remaining h os + queue_remaining h os'"
  by (simp_all add: queue_remaining_def)

lemma queue_remaining_upd [simp]:
  "r \<notin> set os \<Longrightarrow> queue_remaining (h(r := v)) os = queue_remaining h os"
  by (induction os) auto

lemma queue_remaining_cong:
  "(\<And>a. a \<in> set os \<Longrightarrow> h' a = h a) \<Longrightarrow> queue_remaining h' os = queue_remaining h os"
  by (induction os) auto

lemma traded_simps [simp]:
  "traded [] = 0" "traded (ts @ ts') = traded ts + traded ts'"
  "traded [mk_trade sd e n x r q] = sint q"
  by (simp_all add: traded_def mk_trade_def)

text \<open>Conservation in one level: what the aggressor gains is what the trades carry and
  what the queue loses, and the orders left in the queue are still open.\<close>

lemma matchLevel_conserve:
  assumes "matchLevel sd e h os x ts = (h', os', x', ts')"
    and "distinct os" and "\<forall>a \<in> set os. resting_ok (h a)" and "agg_ok x"
  shows "agg_ok x' \<and> (\<forall>a \<in> set os'. resting_ok (h' a))
       \<and> traded ts' = traded ts + (remaining x - remaining x')
       \<and> queue_remaining h' os' = queue_remaining h os - (remaining x - remaining x')"
  using assms
proof (induction os arbitrary: h x ts)
  case Nil
  then show ?case by simp
next
  case (Cons r os)
  let ?q = "trade_qty x (h r)"
  let ?t = "mk_trade sd e (length ts) x (h r) ?q"
  show ?case
  proof (cases "is_open x")
    case False
    with Cons.prems show ?thesis by auto
  next
    case op: True
    from Cons.prems have r: "resting_ok (h r)" "r \<notin> set os" "distinct os" by simp_all
    note st = trade_step [OF \<open>agg_ok x\<close> op r(1)]
    show ?thesis
    proof (cases "?q = Quantity (h r) - FilledQuantity (h r)")
      case False
      with op Cons.prems(1) have res: "h' = h(r := (fill ?q (h r))\<lparr>Status := PARTIAL_FILL\<rparr>)"
        "os' = r # os" "x' = fill ?q x" "ts' = ts @ [?t]" by auto
      from st(8) [OF False] Cons.prems(3) r(2)
      have "\<forall>a \<in> set os'. resting_ok (h' a)" by (auto simp: res)
      moreover have "queue_remaining h' os' = queue_remaining h (r # os) - (remaining x - remaining x')"
        using st(4,6) r(2) by (simp add: res)
      moreover have "traded ts' = traded ts + (remaining x - remaining x')"
        using st(4) by (simp add: res)
      moreover have "agg_ok x'" using st(3) by (simp add: res)
      ultimately show ?thesis by simp
    next
      case True
      let ?h = "h(r := (fill ?q (h r))\<lparr>Status := FILLED\<rparr>)"
      from True op Cons.prems(1)
      have m: "matchLevel sd e ?h os (fill ?q x) (ts @ [?t]) = (h', os', x', ts')" by simp
      from Cons.prems(3) r(2) have ok: "\<forall>a \<in> set os. resting_ok (?h a)" by auto
      from Cons.IH [OF m r(3) ok st(3)]
      have ih: "agg_ok x'" "\<forall>a \<in> set os'. resting_ok (h' a)"
        "traded ts' = traded (ts @ [?t]) + (remaining (fill ?q x) - remaining x')"
        "queue_remaining h' os' = queue_remaining ?h os - (remaining (fill ?q x) - remaining x')"
        by blast+
      from True st(1,7) have q: "sint ?q = remaining (h r)" by simp
      from ih(3) st(4) have "traded ts' = traded ts + (remaining x - remaining x')" by simp
      moreover from ih(4) st(4) q r(2)
      have "queue_remaining h' os' = queue_remaining h (r # os) - (remaining x - remaining x')"
        by simp
      ultimately show ?thesis using ih(1,2) by simp
    qed
  qed
qed

text \<open>FIFO in one level: the orders gone from the queue are filled up, the orders behind
  the head of what is left are untouched.\<close>

lemma matchLevel_fifo:
  assumes "matchLevel sd e h os x ts = (h', os', x', ts')" and "distinct os"
  shows "\<exists>done. os = done @ os' \<and> (\<forall>a \<in> set done. filled_up (h' a))
           \<and> (\<forall>a \<in> set (tl os'). h' a = h a)"
  using assms
proof (induction os arbitrary: h x ts)
  case Nil
  then show ?case by simp
next
  case (Cons r os)
  let ?q = "trade_qty x (h r)"
  let ?t = "mk_trade sd e (length ts) x (h r) ?q"
  from Cons.prems have r: "r \<notin> set os" "distinct os" by simp_all
  show ?case
  proof (cases "is_open x \<and> ?q = Quantity (h r) - FilledQuantity (h r)")
    case False
    with Cons.prems(1) have "os' = r # os" "\<forall>a \<in> set os. h' a = h a"
      using r(1) by (auto split: if_splits)
    then show ?thesis by simp
  next
    case True
    let ?h = "h(r := (fill ?q (h r))\<lparr>Status := FILLED\<rparr>)"
    from True Cons.prems(1)
    have m: "matchLevel sd e ?h os (fill ?q x) (ts @ [?t]) = (h', os', x', ts')" by simp
    from Cons.IH [OF m r(2)] obtain d where d: "os = d @ os'"
      "\<forall>a \<in> set d. filled_up (h' a)" "\<forall>a \<in> set (tl os'). h' a = ?h a" by blast
    from matchLevel_frame [OF m r(1)] True have "filled_up (h' r)"
      by (simp add: filled_up_def fill_def)
    moreover have "h' a = h a" if "a \<in> set (tl os')" for a
    proof -
      from that d(1) have "a \<in> set os" by (cases os') auto
      with r(1) d(3) that show ?thesis by auto
    qed
    ultimately have "r # os = (r # d) @ os' \<and> (\<forall>a \<in> set (r # d). filled_up (h' a))
           \<and> (\<forall>a \<in> set (tl os'). h' a = h a)"
      using d by simp
    then show ?thesis by blast
  qed
qed

text \<open>Conservation along the ladder.\<close>

lemma matchLoop_conserve:
  assumes "matchLoop sd e h ls x ts = (h', ls', x', ts')"
    and "distinct (addrs ls)" and "\<forall>a \<in> set (addrs ls). resting_ok (h a)" and "agg_ok x"
  shows "agg_ok x' \<and> (\<forall>a \<in> set (addrs ls'). resting_ok (h' a))
       \<and> traded ts' = traded ts + (remaining x - remaining x')
       \<and> queue_remaining h' (addrs ls') = queue_remaining h (addrs ls) - (remaining x - remaining x')"
  using assms
proof (induction ls arbitrary: h x ts)
  case Nil
  then show ?case by simp
next
  case (Cons l ls)
  obtain h1 os1 x1 ts1 where m: "matchLevel sd e h (LevelOrders l) x ts = (h1, os1, x1, ts1)"
    by (cases "matchLevel sd e h (LevelOrders l) x ts") auto
  from Cons.prems have d: "distinct (LevelOrders l)" "distinct (addrs ls)"
    "set (LevelOrders l) \<inter> set (addrs ls) = {}"
    and ok: "\<forall>a \<in> set (LevelOrders l). resting_ok (h a)" "\<forall>a \<in> set (addrs ls). resting_ok (h a)"
    by auto
  from matchLevel_conserve [OF m d(1) ok(1) \<open>agg_ok x\<close>]
  have c1: "agg_ok x1" "\<forall>a \<in> set os1. resting_ok (h1 a)"
    "traded ts1 = traded ts + (remaining x - remaining x1)"
    "queue_remaining h1 os1 = queue_remaining h (LevelOrders l) - (remaining x - remaining x1)"
    by blast+
  have fr: "h1 a = h a" if "a \<in> set (addrs ls)" for a
    using matchLevel_frame [OF m, of a] d(3) that by auto
  then have q1: "queue_remaining h1 (addrs ls) = queue_remaining h (addrs ls)"
    by (rule queue_remaining_cong)
  from fr ok(2) have ok1: "\<forall>a \<in> set (addrs ls). resting_ok (h1 a)" by simp
  show ?case
  proof (cases "is_open x \<and> \<not> price_stop sd x l")
    case False
    with Cons.prems show ?thesis by auto
  next
    case go: True
    show ?thesis
    proof (cases "os1 = []")
      case False
      with go Cons.prems(1) m
      have res: "h' = h1" "ls' = l\<lparr>LevelOrders := os1\<rparr> # ls" "x' = x1" "ts' = ts1" by auto
      have "\<forall>a \<in> set (addrs ls'). resting_ok (h' a)"
        using c1(2) ok1 by (auto simp: res)
      moreover have "queue_remaining h' (addrs ls')
          = queue_remaining h (addrs (l # ls)) - (remaining x - remaining x')"
        using c1(4) q1 by (simp add: res)
      moreover have "agg_ok x'" "traded ts' = traded ts + (remaining x - remaining x')"
        using c1(1,3) by (simp_all add: res)
      ultimately show ?thesis by simp
    next
      case True
      with go Cons.prems(1) m
      have r: "matchLoop sd e h1 ls x1 ts1 = (h', ls', x', ts')" by simp
      from Cons.IH [OF r d(2) ok1 c1(1)]
      have ih: "agg_ok x'" "\<forall>a \<in> set (addrs ls'). resting_ok (h' a)"
        "traded ts' = traded ts1 + (remaining x1 - remaining x')"
        "queue_remaining h' (addrs ls')
           = queue_remaining h1 (addrs ls) - (remaining x1 - remaining x')"
        by blast+
      from c1(4) True have "queue_remaining h (LevelOrders l) = remaining x - remaining x1"
        by simp
      with ih(4) q1 have "queue_remaining h' (addrs ls')
          = queue_remaining h (addrs (l # ls)) - (remaining x - remaining x')"
        by simp
      moreover from ih(3) c1(3) have "traded ts' = traded ts + (remaining x - remaining x')"
        by simp
      ultimately show ?thesis using ih(1,2) by simp
    qed
  qed
qed

text \<open>Price-time priority along the ladder: the flattened queue splits into the orders
  that are filled up, and what is left, where only the first one may have been touched.\<close>

lemma matchLoop_fifo:
  assumes "matchLoop sd e h ls x ts = (h', ls', x', ts')" and "distinct (addrs ls)"
  shows "\<exists>done. addrs ls = done @ addrs ls' \<and> (\<forall>a \<in> set done. filled_up (h' a))
           \<and> (\<forall>a \<in> set (tl (addrs ls')). h' a = h a)"
  using assms
proof (induction ls arbitrary: h x ts)
  case Nil
  then show ?case by simp
next
  case (Cons l ls)
  obtain h1 os1 x1 ts1 where m: "matchLevel sd e h (LevelOrders l) x ts = (h1, os1, x1, ts1)"
    by (cases "matchLevel sd e h (LevelOrders l) x ts") auto
  from Cons.prems have d: "distinct (LevelOrders l)" "distinct (addrs ls)"
    "set (LevelOrders l) \<inter> set (addrs ls) = {}"
    by auto
  from matchLevel_fifo [OF m d(1)] obtain d1 where d1: "LevelOrders l = d1 @ os1"
    "\<forall>a \<in> set d1. filled_up (h1 a)" "\<forall>a \<in> set (tl os1). h1 a = h a" by blast
  have fr: "h1 a = h a" if "a \<in> set (addrs ls)" for a
    using matchLevel_frame [OF m, of a] d(3) that by auto
  show ?case
  proof (cases "is_open x \<and> \<not> price_stop sd x l")
    case False
    with Cons.prems(1) have "h' = h" "ls' = l # ls" by auto
    then show ?thesis by simp
  next
    case go: True
    show ?thesis
    proof (cases "os1 = []")
      case False
      with go Cons.prems(1) m
      have res: "h' = h1" "ls' = l\<lparr>LevelOrders := os1\<rparr> # ls" by auto
      from False have "tl (addrs ls') = tl os1 @ addrs ls" by (simp add: res)
      with d1(3) fr have "\<forall>a \<in> set (tl (addrs ls')). h' a = h a" by (auto simp: res(1))
      moreover have "addrs (l # ls) = d1 @ addrs ls'" using d1(1) by (simp add: res)
      moreover have "\<forall>a \<in> set d1. filled_up (h' a)" using d1(2) by (simp add: res)
      ultimately show ?thesis by blast
    next
      case True
      with go Cons.prems(1) m
      have r: "matchLoop sd e h1 ls x1 ts1 = (h', ls', x', ts')" by simp
      from Cons.IH [OF r d(2)] obtain d2 where d2: "addrs ls = d2 @ addrs ls'"
        "\<forall>a \<in> set d2. filled_up (h' a)" "\<forall>a \<in> set (tl (addrs ls')). h' a = h1 a" by blast
      have "h' a = h a" if "a \<in> set (tl (addrs ls'))" for a
      proof -
        from that d2(1) have "a \<in> set (addrs ls)" by (cases "addrs ls'") auto
        with fr d2(3) that show ?thesis by simp
      qed
      moreover have "filled_up (h' a)" if "a \<in> set d1" for a
      proof -
        from that d1(1) d(3) have "a \<notin> set (addrs ls)" by auto
        from matchLoop_frame [OF r this] d1(2) that show ?thesis by simp
      qed
      moreover from True d1(1) d2(1) have "addrs (l # ls) = (d1 @ d2) @ addrs ls'" by simp
      ultimately show ?thesis using d2(2) by (intro exI [of _ "d1 @ d2"]) auto
    qed
  qed
qed

lemma mset_addrs_insort:
  "mset (addrs (insort_key k l ls)) = mset (LevelOrders l) + mset (addrs ls)"
  by (induction ls) auto

lemma mset_addrs_sort: "mset (addrs (sort_key k ls)) = mset (addrs ls)"
  by (induction ls) (simp_all add: mset_addrs_insort)

lemma mset_addrs_appendToLevel:
  "appendToLevel p a ls = Some ls' \<Longrightarrow> mset (addrs ls') = add_mset a (mset (addrs ls))"
  by (induction ls arbitrary: ls') (auto split: if_splits)

lemma mset_addToBids: "mset (addrs (addToBids h a ls)) = add_mset a (mset (addrs ls))"
  by (auto simp: addToBids_def mset_addrs_sort mset_addrs_appendToLevel split: option.splits)

lemma mset_addToAsks: "mset (addrs (addToAsks h a ls)) = add_mset a (mset (addrs ls))"
  by (auto simp: addToAsks_def mset_addrs_sort mset_addrs_appendToLevel split: option.splits)

lemma queue_remaining_mset:
  "mset os = mset os' \<Longrightarrow> queue_remaining h os = queue_remaining h os'"
proof -
  assume "mset os = mset os'"
  then have "mset (map (\<lambda>a. remaining (h a)) os) = mset (map (\<lambda>a. remaining (h a)) os')"
    by simp
  then have "sum_mset (mset (map (\<lambda>a. remaining (h a)) os))
      = sum_mset (mset (map (\<lambda>a. remaining (h a)) os'))" by (rule arg_cong)
  then show ?thesis by (simp only: queue_remaining_def sum_mset_sum_list)
qed

lemma own_side_AddOrder:
  "Side (h a) = sd \<Longrightarrow> mset (addrs (own_side sd (AddOrder h a b)))
     = add_mset a (mset (addrs (own_side sd b)))"
  by (cases sd) (simp_all add: AddOrder_def own_side_def Let_def mset_addToBids mset_addToAsks)

lemma baddrs_sides: "mset (baddrs b) = mset (addrs (own_side sd b)) + mset (addrs (opposing sd b))"
  by (cases sd) (simp_all add: baddrs_def own_side_def opposing_def)

lemma book_remaining_sides:
  "book_remaining h b
     = queue_remaining h (addrs (own_side sd b)) + queue_remaining h (addrs (opposing sd b))"
  using queue_remaining_mset [of "baddrs b" "addrs (own_side sd b) @ addrs (opposing sd b)" h]
  by (simp add: book_remaining_def baddrs_sides [of b sd])

lemma NewMatchingEngine_books [simp]: "books NewMatchingEngine = Map.empty"
  by (simp add: NewMatchingEngine_def)

lemma book_wf_NewOrderBook [simp]: "book_wf h n (NewOrderBook symbol)"
  by (simp add: book_wf_def NewOrderBook_def baddrs_def)

lemma engine_wf_the_book:
  "engine_wf me \<Longrightarrow> book_wf (heap me) (next_addr me) (the_book symbol me)"
  by (cases "books me symbol") (auto simp: engine_wf_def the_book_simps)

lemma book_wf_sides:
  assumes "book_wf h n b"
  shows "distinct (addrs (opposing sd b))" "distinct (addrs (own_side sd b))"
    "set (addrs (opposing sd b)) \<inter> set (addrs (own_side sd b)) = {}"
    "\<forall>a \<in> set (addrs (opposing sd b)). a < n" "\<forall>a \<in> set (addrs (own_side sd b)). a < n"
    "\<forall>l \<in> set (opposing sd b). level_ok h l" "\<forall>l \<in> set (own_side sd b). level_ok h l"
  using assms by (cases sd; auto simp: book_wf_def baddrs_def opposing_def own_side_def)+

lemma level_ok_resting:
  "\<forall>l \<in> set ls. level_ok h l \<Longrightarrow> \<forall>a \<in> set (addrs ls). resting_ok (h a)"
  by (auto simp: level_ok_def addrs_def)

lemma level_ok_prices:
  "\<forall>l \<in> set ls. level_ok h l \<Longrightarrow> prices_match h ls"
  by (auto simp: level_ok_def prices_match_def)

lemma agg_ok_NewOrder: "0 <s qty \<Longrightarrow> agg_ok (NewOrder e symbol sd ty price qty)"
  by (simp add: agg_ok_def word_sle_eq word_sless_alt)

lemma remaining_NewOrder [simp]: "remaining (NewOrder e symbol sd ty price qty) = sint qty"
  by (simp add: remaining_def)

lemma matchLoop_addrs:
  assumes "matchLoop sd e h ls x ts = (h', ls', x', ts')"
  shows "\<exists>done. addrs ls = done @ addrs ls'"
proof -
  from matchLoop_ladder [OF assms] consider "ls' = []"
    | pre l rest d os' where "ls = pre @ l # rest" "LevelOrders l = d @ os'"
        "ls' = l\<lparr>LevelOrders := os'\<rparr> # rest"
    by blast
  then show ?thesis
  proof cases
    case 1
    then show ?thesis by simp
  next
    case 2
    then have "addrs ls = (addrs pre @ d) @ addrs ls'" by simp
    then show ?thesis by blast
  qed
qed

lemma foldl_levels:
  "foldl (\<lambda>acc level. foldl g acc (LevelOrders level)) z ls = foldl g z (addrs ls)"
  by (induction ls arbitrary: z) simp_all

lemma foldl_liquidity:
  "foldl (\<lambda>acc a. acc + (Quantity (h a) - FilledQuantity (h a))) z os
     = z + word_of_int (queue_remaining h os)"
  by (induction os arbitrary: z) (simp_all add: remaining_def)

text \<open>The accumulator of the precheck is the total remaining quantity modulo \<open>2^64\<close>.\<close>

lemma availableLiquidity_eq:
  "availableLiquidity h ls = word_of_int (queue_remaining h (addrs ls))"
  unfolding availableLiquidity_def foldl_levels by (simp add: foldl_liquidity)

lemma queue_remaining_nonneg:
  "\<forall>a \<in> set os. resting_ok (h a) \<Longrightarrow> 0 \<le> queue_remaining h os"
  by (induction os) (auto simp: resting_ok_def remaining_def word_sless_alt)

lemma sint_availableLiquidity:
  assumes "\<forall>a \<in> set (addrs ls). resting_ok (h a)"
  shows "sint (availableLiquidity h ls) \<le> queue_remaining h (addrs ls)"
    "queue_remaining h (addrs ls) < 2 ^ 63 \<Longrightarrow>
       sint (availableLiquidity h ls) = queue_remaining h (addrs ls)"
proof -
  from queue_remaining_nonneg [OF assms] have nn: "0 \<le> queue_remaining h (addrs ls)" .
  then have "- (2 ^ 63) \<le> queue_remaining h (addrs ls)" by simp
  then show "sint (availableLiquidity h ls) \<le> queue_remaining h (addrs ls)"
    by (simp add: availableLiquidity_eq sint_sbintrunc' signed_take_bit_int_less_eq_self_iff)
  show "sint (availableLiquidity h ls) = queue_remaining h (addrs ls)"
    if "queue_remaining h (addrs ls) < 2 ^ 63"
    using nn that
    by (simp add: availableLiquidity_eq sint_sbintrunc' signed_take_bit_int_eq_self)
qed

lemma is_open_remaining: "is_open x \<longleftrightarrow> 0 < remaining x"
  by (simp add: is_open_def remaining_def word_sless_alt)

lemma agg_ok_closed: "agg_ok x \<Longrightarrow> \<not> is_open x \<Longrightarrow> FilledQuantity x = Quantity x"
  by (auto simp: agg_ok_def is_open_def word_sle_eq word_sless_alt
      word_eq_iff_signed [where ?'a = int])

text \<open>What a successful submission does to the two ladders of its book, in quantities.\<close>

lemma SubmitOrder_quantities:
  assumes sub: "SubmitOrder e symbol sd ty price qty me = (Inr r, me')"
    and wf: "engine_wf me"
  obtains x' where
    "agg_ok x'" "Quantity x' = qty" "ResultFilledQuantity r = FilledQuantity x'"
    "traded (Trades r) = sint qty - remaining x'"
    "queue_remaining (heap me') (addrs (opposing sd (the_book symbol me')))
       = queue_remaining (heap me) (addrs (opposing sd (the_book symbol me)))
         - (sint qty - remaining x')"
    "queue_remaining (heap me') (addrs (own_side sd (the_book symbol me')))
       = queue_remaining (heap me) (addrs (own_side sd (the_book symbol me)))
         + (if rests ty x' then remaining x' else 0)"
    "RemainingQuantity r = (if rests ty x' then Quantity x' - FilledQuantity x' else 0)"
    "ResultStatus r = (if rests ty x' then if 0 <s FilledQuantity x' then PARTIAL_FILL else ACCEPTED
                       else if FilledQuantity x' = Quantity x' then FILLED else ACCEPTED)"
    "ty = MARKET \<longrightarrow> \<not> is_open x'"
    "\<not> rests ty x' \<longrightarrow> own_side sd (the_book symbol me') = own_side sd (the_book symbol me)
        \<and> Orders (the_book symbol me') = Orders (the_book symbol me)
        \<and> next_addr me' = next_addr me"
proof -
  let ?x = "NewOrder e symbol sd ty price qty"
  let ?b = "the_book symbol me"
  let ?n = "next_addr me"
  let ?opp = "opposing sd ?b" and ?own = "own_side sd ?b"
  from sub obtain h' ls' x' where
    m: "matchLoop sd e (heap me) ?opp ?x [] = (h', ls', x', Trades r)"
    and valid: "\<not> qty \<le>s 0"
    and liq: "ty = MARKET \<longrightarrow> \<not> availableLiquidity (heap me) ?opp <s qty"
    and f: "ResultFilledQuantity r = FilledQuantity x'"
    and rest: "rests ty x' \<longrightarrow>
       me' = me\<lparr>books := (books me)(symbol \<mapsto>
                 AddOrder (h'(?n := x')) ?n (set_opposing sd ls' ?b)),
               heap := h'(?n := x'), next_addr := Suc ?n\<rparr>
       \<and> RemainingQuantity r = Quantity x' - FilledQuantity x'
       \<and> ResultStatus r = (if 0 <s FilledQuantity x' then PARTIAL_FILL else ACCEPTED)"
    and norest: "\<not> rests ty x' \<longrightarrow>
       me' = me\<lparr>books := (books me)(symbol \<mapsto> set_opposing sd ls' ?b), heap := h'\<rparr>
       \<and> RemainingQuantity r = 0
       \<and> ResultStatus r = (if FilledQuantity x' = Quantity x' then FILLED else Status x')"
    by (auto elim: SubmitOrder_Inr)
  note bw = book_wf_sides [OF engine_wf_the_book [OF wf], of sd symbol]
  note ok = level_ok_resting [OF bw(6)]
  from valid have pos: "0 <s qty" by (simp add: word_sle_eq word_sless_alt)
  from matchLoop_conserve [OF m bw(1) ok agg_ok_NewOrder [OF pos]]
  have c: "agg_ok x'" "traded (Trades r) = sint qty - remaining x'"
    "queue_remaining h' (addrs ls') = queue_remaining (heap me) (addrs ?opp) - (sint qty - remaining x')"
    by simp_all
  from matchLoop_aggressor [OF m] have x': "Quantity x' = qty" "Side x' = sd" "Status x' = ACCEPTED"
    "Type x' = ty"
    by (simp_all add: static_eq_def)
  have own: "queue_remaining h' (addrs ?own) = queue_remaining (heap me) (addrs ?own)"
  proof (rule queue_remaining_cong)
    fix a assume "a \<in> set (addrs ?own)"
    with bw(3) have "a \<notin> set (addrs ?opp)" by auto
    from matchLoop_frame [OF m this] show "h' a = heap me a" .
  qed
  have mk: "\<not> is_open x'" if ty: "ty = MARKET"
  proof -
    from matchLoop_ladder [OF m] consider "ls' = []"
      | l where "\<not> is_open x' \<or> price_stop sd x' l"
      by blast
    then show ?thesis
    proof cases
      case 1
      from liq ty sint_availableLiquidity(1) [OF ok]
      have "sint qty \<le> queue_remaining (heap me) (addrs ?opp)"
        by (simp add: word_sless_alt)
      with c(3) 1 show ?thesis by (simp add: is_open_remaining)
    next
      case 2
      with ty x' show ?thesis by (simp add: price_stop_def)
    qed
  qed
  show ?thesis
  proof (cases "rests ty x'")
    case False
    with norest have me': "me' = me\<lparr>books := (books me)(symbol \<mapsto> set_opposing sd ls' ?b),
        heap := h'\<rparr>" and r: "RemainingQuantity r = 0"
      "ResultStatus r = (if FilledQuantity x' = Quantity x' then FILLED else Status x')"
      by simp_all
    show ?thesis
    proof (rule that [of x'])
      show "ty = MARKET \<longrightarrow> \<not> is_open x'" using mk by simp
    qed (use False c x' f r own in \<open>simp_all add: me'\<close>)
  next
    case True
    with rest have me': "me' = me\<lparr>books := (books me)(symbol \<mapsto>
                 AddOrder (h'(?n := x')) ?n (set_opposing sd ls' ?b)),
               heap := h'(?n := x'), next_addr := Suc ?n\<rparr>"
      and r: "RemainingQuantity r = Quantity x' - FilledQuantity x'"
        "ResultStatus r = (if 0 <s FilledQuantity x' then PARTIAL_FILL else ACCEPTED)"
      by simp_all
    let ?h = "h'(?n := x')"
    have sd: "Side (?h ?n) = sd" by (simp add: x')
    from matchLoop_addrs [OF m] have sub: "set (addrs ls') \<subseteq> set (addrs ?opp)" by auto
    with bw(4) have n1: "?n \<notin> set (addrs ls')" by auto
    from bw(5) have n2: "?n \<notin> set (addrs ?own)" by auto
    have b': "the_book symbol me' = AddOrder ?h ?n (set_opposing sd ls' ?b)"
      by (simp add: me')
    have "queue_remaining ?h (addrs (own_side sd (the_book symbol me')))
        = queue_remaining ?h (?n # addrs ?own)"
      by (rule queue_remaining_mset) (simp add: b' own_side_AddOrder [where h = "?h" and a = "?n", OF sd])
    with n2 own have 1: "queue_remaining (heap me') (addrs (own_side sd (the_book symbol me')))
        = queue_remaining (heap me) (addrs ?own) + remaining x'"
      by (simp add: me')
    have "opposing sd (the_book symbol me') = ls'"
      by (simp add: b' AddOrder_opposing [where h = "?h" and a = "?n", OF sd])
    with n1 c(3) have 2: "queue_remaining (heap me') (addrs (opposing sd (the_book symbol me')))
       = queue_remaining (heap me) (addrs ?opp) - (sint qty - remaining x')"
      by (simp add: me')
    show ?thesis
    proof (rule that [of x'])
      show "ty = MARKET \<longrightarrow> \<not> is_open x'" using mk by simp
    qed (use True c x' f r 1 2 in simp_all)
  qed
qed

lemma huge_asks_eq:
  "huge_asks = \<lparr>books = [''AAPL'' \<mapsto> \<lparr>BookSymbol = ''AAPL'', Bids = [],
       Asks = [\<lparr>LevelPrice = 1, LevelOrders = [0, 1]\<rparr>],
       Orders = [''s1'' \<mapsto> 0, ''s2'' \<mapsto> 1]\<rparr>],
     heap = (\<lambda>_. placeholder)
      (0 := \<lparr>ID = ''s1'', Symbol = ''AAPL'', Side = SELL, Type = LIMIT,
         Price = 1, Quantity = 4611686018427387904, FilledQuantity = 0, Status = ACCEPTED,
         Timestamp = 0\<rparr>,
       1 := \<lparr>ID = ''s2'', Symbol = ''AAPL'', Side = SELL, Type = LIMIT,
         Price = 1, Quantity = 4611686018427387904, FilledQuantity = 0, Status = ACCEPTED,
         Timestamp = 0\<rparr>),
     next_addr = 2\<rparr>"
  by (simp add: huge_asks_def submit_defs)

text \<open>
  The market order where the accumulator does not wrap (the opposing side holds less than
  \<open>2^63\<close>): with too little on the opposing side the submission fails with
  InsufficientLiquidity and the engine is as it was, up to the lazy creation of the
  symbol's empty book; otherwise it succeeds, the trades carry exactly the requested
  quantity, the result is FILLED with nothing remaining, the opposing side has lost
  exactly that quantity, and the order does not rest.
\<close>

lemma market_all_or_nothing:
  assumes sub: "SubmitOrder e symbol sd MARKET price qty me = (res, me')"
    and wf: "engine_wf me"
    and pos: "0 <s qty"
    and small: "queue_remaining (heap me) (addrs (opposing sd (the_book symbol me))) < 2 ^ 63"
  shows "if queue_remaining (heap me) (addrs (opposing sd (the_book symbol me))) < sint qty
         then res = Inl (InsufficientLiquidity
                      (availableLiquidity (heap me) (opposing sd (the_book symbol me))) qty)
            \<and> me' = snd (GetOrCreateBook symbol me)
         else (\<exists>r. res = Inr r \<and> ResultStatus r = FILLED \<and> ResultFilledQuantity r = qty
            \<and> RemainingQuantity r = 0 \<and> traded (Trades r) = sint qty
            \<and> queue_remaining (heap me') (addrs (opposing sd (the_book symbol me')))
                = queue_remaining (heap me) (addrs (opposing sd (the_book symbol me))) - sint qty
            \<and> own_side sd (the_book symbol me') = own_side sd (the_book symbol me)
            \<and> Orders (the_book symbol me') = Orders (the_book symbol me)
            \<and> next_addr me' = next_addr me)"
proof -
  let ?opp = "opposing sd (the_book symbol me)"
  let ?L = "queue_remaining (heap me) (addrs ?opp)"
  note bw = book_wf_sides [OF engine_wf_the_book [OF wf], of sd symbol]
  from sint_availableLiquidity(2) [OF level_ok_resting [OF bw(6)] small]
  have liq: "availableLiquidity (heap me) ?opp <s qty \<longleftrightarrow> ?L < sint qty"
    by (simp add: word_sless_alt)
  show ?thesis
  proof (cases res)
    case (Inl err)
    with sub pos SubmitOrder_Inl [of e symbol sd MARKET price qty me err me']
    have "err = InsufficientLiquidity (availableLiquidity (heap me) ?opp) qty"
      "availableLiquidity (heap me) ?opp <s qty" "me' = snd (GetOrCreateBook symbol me)"
      by (auto simp: word_sless_alt word_sle_eq)
    with Inl liq show ?thesis by simp
  next
    case (Inr r)
    with sub have sub': "SubmitOrder e symbol sd MARKET price qty me = (Inr r, me')" by simp
    from sub' have "\<not> availableLiquidity (heap me) ?opp <s qty"
      by (auto elim: SubmitOrder_Inr)
    with liq have enough: "\<not> ?L < sint qty" by simp
    from sub' wf obtain x' where x': "agg_ok x'" "Quantity x' = qty"
      "ResultFilledQuantity r = FilledQuantity x'"
      "traded (Trades r) = sint qty - remaining x'"
      "queue_remaining (heap me') (addrs (opposing sd (the_book symbol me')))
         = ?L - (sint qty - remaining x')"
      "RemainingQuantity r = (if rests MARKET x' then Quantity x' - FilledQuantity x' else 0)"
      "ResultStatus r = (if rests MARKET x' then if 0 <s FilledQuantity x' then PARTIAL_FILL else ACCEPTED
                         else if FilledQuantity x' = Quantity x' then FILLED else ACCEPTED)"
      "\<not> is_open x'"
      "\<not> rests MARKET x' \<longrightarrow> own_side sd (the_book symbol me') = own_side sd (the_book symbol me)
          \<and> Orders (the_book symbol me') = Orders (the_book symbol me)
          \<and> next_addr me' = next_addr me"
      by (rule SubmitOrder_quantities) simp
    from agg_ok_closed [OF x'(1,8)] have full: "FilledQuantity x' = Quantity x'" .
    then have "remaining x' = 0" by (simp add: remaining_def)
    with x' full enough Inr show ?thesis by (simp add: rests_def)
  qed
qed

lemma engine_wf_one_ask: "engine_wf one_ask"
  by (auto simp: one_ask_eq engine_wf_def book_wf_def baddrs_def level_ok_def resting_ok_def
      word_sle_eq word_sless_alt split: if_splits)

lemma market_all_or_nothing_example:
  "(\<exists>r. fst (SubmitOrder (env_of ''m1'') ''AAPL'' BUY MARKET 0 60 one_ask) = Inr r
       \<and> ResultStatus r = FILLED \<and> ResultFilledQuantity r = 60 \<and> RemainingQuantity r = 0
       \<and> traded (Trades r) = 60)
   \<and> (\<exists>a. SubmitOrder (env_of ''m2'') ''AAPL'' BUY MARKET 0 150 one_ask
          = (Inl (InsufficientLiquidity a 150), one_ask))"
proof -
  have L: "queue_remaining (heap one_ask) (addrs (opposing BUY (the_book ''AAPL'' one_ask))) = 100"
    by (simp add: the_book_one_ask opposing_def) (simp add: one_ask_eq remaining_def)
  have v: "0 <s (60 :: int64)" "0 <s (150 :: int64)" by (simp_all add: word_sless_alt)
  have g: "snd (GetOrCreateBook ''AAPL'' one_ask) = one_ask"
    by (simp add: one_ask_eq GetOrCreateBook_def)
  from market_all_or_nothing [where e = "env_of ''m1''" and symbol = "''AAPL''" and sd = BUY
      and price = 0 and qty = 60 and me = one_ask, OF pair_collapse engine_wf_one_ask v(1)]
  have 1: "\<exists>r. fst (SubmitOrder (env_of ''m1'') ''AAPL'' BUY MARKET 0 60 one_ask) = Inr r
       \<and> ResultStatus r = FILLED \<and> ResultFilledQuantity r = 60 \<and> RemainingQuantity r = 0
       \<and> traded (Trades r) = 60"
    by (simp add: L) blast
  from market_all_or_nothing [where e = "env_of ''m2''" and symbol = "''AAPL''" and sd = BUY
      and price = 0 and qty = 150 and me = one_ask, OF pair_collapse engine_wf_one_ask v(2)]
  have 2: "\<exists>a. SubmitOrder (env_of ''m2'') ''AAPL'' BUY MARKET 0 150 one_ask
          = (Inl (InsufficientLiquidity a 150), one_ask)"
    by (simp add: L g prod_eq_iff)
  from 1 2 show ?thesis by simp
qed

lemma touched_before:
  assumes "xs = d @ r" "p < p'" "p' < length xs" "xs ! p' \<notin> set (tl r)"
  shows "xs ! p \<in> set d"
proof -
  have "p' \<le> length d"
  proof (rule ccontr)
    assume "\<not> p' \<le> length d"
    then have "length d < p'" by simp
    define k where "k = p' - Suc (length d)"
    with \<open>length d < p'\<close> have k: "p' = length d + Suc k" by simp
    with assms(1,3) have "Suc k < length r" by simp
    then have "k < length (tl r)" "tl r ! k = r ! Suc k" by (simp_all add: nth_tl)
    then have "r ! Suc k \<in> set (tl r)" using nth_mem [of k "tl r"] by simp
    moreover from k assms(1) have "xs ! p' = r ! Suc k" by (simp add: nth_append)
    ultimately show False using assms(4) by simp
  qed
  with assms(2) have "p < length d" by simp
  with assms(1) show ?thesis by (simp add: nth_append)
qed

lemma sorted_positions:
  assumes "sorted_wrt (<) (os :: nat list)" "a \<in> set os" "a' \<in> set os" "a < a'"
  shows "\<exists>i j. i < j \<and> j < length os \<and> os ! i = a \<and> os ! j = a'"
proof -
  from assms(2) obtain i where i: "i < length os" "os ! i = a"
    unfolding in_set_conv_nth by blast
  from assms(3) obtain j where j: "j < length os" "os ! j = a'"
    unfolding in_set_conv_nth by blast
  have "i < j"
  proof (rule ccontr)
    assume n: "\<not> i < j"
    show False
    proof (cases "j = i")
      case True
      with i j assms(4) show False by simp
    next
      case False
      with n have "j < i" by simp
      with assms(1) i(1) have "os ! j < os ! i"
        unfolding sorted_wrt_iff_nth_less by blast
      with i j assms(4) show False by simp
    qed
  qed
  with i j show ?thesis by blast
qed

text \<open>Price-time priority of one submission to a well-formed engine: the trades follow
  the opposing ladder level by level and queue by queue, and a change to a younger order
  of a level means that every older order of the level is filled up.\<close>

lemma price_time_priority_wf:
  assumes sub: "SubmitOrder e symbol sd ty price qty me = (Inr r, me')"
    and wf: "engine_wf me"
  shows "map (counterparty sd) (Trades r)
           = map (\<lambda>a. ID (heap me a))
               (take (length (Trades r)) (addrs (opposing sd (the_book symbol me))))
       \<and> (\<forall>l \<in> set (opposing sd (the_book symbol me)).
            \<forall>a \<in> set (LevelOrders l). \<forall>a' \<in> set (LevelOrders l).
              a < a' \<and> heap me' a' \<noteq> heap me a' \<longrightarrow> filled_up (heap me' a))"
proof -
  let ?x = "NewOrder e symbol sd ty price qty"
  let ?b = "the_book symbol me"
  let ?n = "next_addr me"
  let ?opp = "opposing sd ?b"
  from sub obtain h' ls' x' where
    m: "matchLoop sd e (heap me) ?opp ?x [] = (h', ls', x', Trades r)"
    and rest: "rests ty x' \<longrightarrow>
       me' = me\<lparr>books := (books me)(symbol \<mapsto>
                 AddOrder (h'(?n := x')) ?n (set_opposing sd ls' ?b)),
               heap := h'(?n := x'), next_addr := Suc ?n\<rparr>
       \<and> RemainingQuantity r = Quantity x' - FilledQuantity x'
       \<and> ResultStatus r = (if 0 <s FilledQuantity x' then PARTIAL_FILL else ACCEPTED)"
    and norest: "\<not> rests ty x' \<longrightarrow>
       me' = me\<lparr>books := (books me)(symbol \<mapsto> set_opposing sd ls' ?b), heap := h'\<rparr>
       \<and> RemainingQuantity r = 0
       \<and> ResultStatus r = (if FilledQuantity x' = Quantity x' then FILLED else Status x')"
    by (auto elim: SubmitOrder_Inr)
  note bw = book_wf_sides [OF engine_wf_the_book [OF wf], of sd symbol]
  have hp: "heap me' a = h' a" if "a \<in> set (addrs ?opp)" for a
  proof -
    from that bw(4) have "a \<noteq> ?n" by auto
    with rest norest show ?thesis by (cases "rests ty x'") auto
  qed
  from matchLoop_trades [OF m] have
    "map (\<lambda>t. (TradePrice t, counterparty sd t)) (Trades r)
       = map (\<lambda>a. (Price (heap me a), ID (heap me a))) (take (length (Trades r)) (addrs ?opp))"
    by auto
  then have "map snd (map (\<lambda>t. (TradePrice t, counterparty sd t)) (Trades r))
       = map snd (map (\<lambda>a. (Price (heap me a), ID (heap me a)))
           (take (length (Trades r)) (addrs ?opp)))"
    by (rule arg_cong)
  then have 1: "map (counterparty sd) (Trades r)
           = map (\<lambda>a. ID (heap me a)) (take (length (Trades r)) (addrs ?opp))"
    by (simp add: comp_def)
  from matchLoop_fifo [OF m bw(1)] obtain d where d: "addrs ?opp = d @ addrs ls'"
    "\<forall>a \<in> set d. filled_up (h' a)" "\<forall>a \<in> set (tl (addrs ls')). h' a = heap me a"
    by blast
  have 2: "filled_up (heap me' a)"
    if l: "l \<in> set ?opp" and a: "a \<in> set (LevelOrders l)" and a': "a' \<in> set (LevelOrders l)"
      and lt: "a < a'" and ch: "heap me' a' \<noteq> heap me a'" for l a a'
  proof -
    from bw(6) l have "sorted_wrt (<) (LevelOrders l)" by (simp add: level_ok_def)
    from sorted_positions [OF this a a' lt] obtain i j where ij: "i < j"
      "j < length (LevelOrders l)" "LevelOrders l ! i = a" "LevelOrders l ! j = a'"
      by (elim exE conjE)
    from l obtain pre post where "?opp = pre @ l # post"
      unfolding in_set_conv_decomp by (elim exE)
    then have fl: "addrs ?opp = addrs pre @ LevelOrders l @ addrs post" by simp
    let ?p = "length (addrs pre) + i" and ?p' = "length (addrs pre) + j"
    from ij fl have p: "addrs ?opp ! ?p = a" "addrs ?opp ! ?p' = a'" "?p' < length (addrs ?opp)"
      "?p < ?p'"
      by (simp_all add: nth_append)
    from a a' fl have mem: "a \<in> set (addrs ?opp)" "a' \<in> set (addrs ?opp)" by simp_all
    from ch hp [OF mem(2)] d(3) have "a' \<notin> set (tl (addrs ls'))" by auto
    with p have "addrs ?opp ! ?p' \<notin> set (tl (addrs ls'))" by simp
    from touched_before [OF d(1) p(4,3) this] p(1) have "a \<in> set d" by simp
    with d(2) hp [OF mem(1)] show ?thesis by simp
  qed
  from 1 2 show ?thesis by blast
qed

lemma three_asks_eq:
  "three_asks = \<lparr>books = [''AAPL'' \<mapsto> \<lparr>BookSymbol = ''AAPL'', Bids = [],
       Asks = [\<lparr>LevelPrice = 15050, LevelOrders = [0, 1, 2]\<rparr>],
       Orders = [''s1'' \<mapsto> 0, ''s2'' \<mapsto> 1, ''s3'' \<mapsto> 2]\<rparr>],
     heap = (\<lambda>_. placeholder)
      (0 := \<lparr>ID = ''s1'', Symbol = ''AAPL'', Side = SELL, Type = LIMIT,
         Price = 15050, Quantity = 100, FilledQuantity = 0, Status = ACCEPTED, Timestamp = 0\<rparr>,
       1 := \<lparr>ID = ''s2'', Symbol = ''AAPL'', Side = SELL, Type = LIMIT,
         Price = 15050, Quantity = 100, FilledQuantity = 0, Status = ACCEPTED, Timestamp = 0\<rparr>,
       2 := \<lparr>ID = ''s3'', Symbol = ''AAPL'', Side = SELL, Type = LIMIT,
         Price = 15050, Quantity = 100, FilledQuantity = 0, Status = ACCEPTED, Timestamp = 0\<rparr>),
     next_addr = 3\<rparr>"
  by (simp add: three_asks_def one_ask_eq submit_defs numeral_2_eq_2 numeral_3_eq_3)

lemma engine_wf_three_asks: "engine_wf three_asks"
  by (auto simp: three_asks_eq engine_wf_def book_wf_def baddrs_def level_ok_def resting_ok_def
      word_sle_eq word_sless_alt split: if_splits)

lemma the_book_three_asks:
  "the_book ''AAPL'' three_asks = \<lparr>BookSymbol = ''AAPL'', Bids = [],
       Asks = [\<lparr>LevelPrice = 15050, LevelOrders = [0, 1, 2]\<rparr>],
       Orders = [''s1'' \<mapsto> 0, ''s2'' \<mapsto> 1, ''s3'' \<mapsto> 2]\<rparr>"
  by (simp add: three_asks_eq the_book_def GetOrCreateBook_def)




lemma pkey_other [simp]: "pkey (other sd) p = - pkey sd p"
  by (simp add: pkey_def other_def)

lemma pkey_inj [simp]: "pkey sd p = pkey sd q \<longleftrightarrow> p = q"
  by (simp add: pkey_def word_eq_iff_signed [where ?'a = int])


lemma book_inv_NewOrderBook [simp]: "book_inv (NewOrderBook symbol)"
  by (simp add: book_inv_def NewOrderBook_def ladder_sorted_def)









lemma run_induct:
  assumes "P NewMatchingEngine" and "\<And>me op. P me \<Longrightarrow> P (apply_op me op)"
  shows "P (run ops)"
  unfolding run_def by (induction ops rule: rev_induct) (simp_all add: assms)













lemma qeq_refl [simp]: "qeq x x"
  by (simp add: qeq_def)

lemma qeq_Status [simp]: "qeq (x\<lparr>Status := s\<rparr>) y = qeq x y"
  by (simp add: qeq_def)

lemma level_ok_cong:
  "(\<And>a. a \<in> set (LevelOrders l) \<Longrightarrow> qeq (h' a) (h a)) \<Longrightarrow> level_ok h l \<Longrightarrow> level_ok h' l"
  by (simp add: level_ok_def qeq_def resting_ok_def)

lemma baddrs_levels:
  "l \<in> set (Bids b) \<union> set (Asks b) \<Longrightarrow> set (LevelOrders l) \<subseteq> set (baddrs b)"
  by (auto simp: baddrs_def addrs_def)

lemma engine_wf_disjoint:
  assumes "engine_wf me" "k \<noteq> symbol" "books me k = Some bk"
  shows "set (baddrs (the_book symbol me)) \<inter> set (baddrs bk) = {}"
proof (cases "books me symbol")
  case None
  then show ?thesis by (simp add: the_book_simps NewOrderBook_def baddrs_def)
next
  case (Some b)
  with assms show ?thesis unfolding engine_wf_def the_book_simps(1) [OF Some] by blast
qed

text \<open>Replacing the book of one symbol keeps the engine well formed when the new book is
  well formed, uses only cells of the old book or new cells, and the cells of the other
  books keep their price and quantities.\<close>

lemma engine_wf_update:
  assumes wf: "engine_wf me"
    and bk: "books me' = (books me)(symbol \<mapsto> b')"
    and n: "next_addr me \<le> next_addr me'"
    and hp: "\<And>a. a < next_addr me \<Longrightarrow> a \<notin> set (baddrs (the_book symbol me)) \<Longrightarrow>
               qeq (heap me' a) (heap me a)"
    and bw: "book_wf (heap me') (next_addr me') b'"
    and sub: "\<And>a. a \<in> set (baddrs b') \<Longrightarrow>
               a \<in> set (baddrs (the_book symbol me)) \<or> next_addr me \<le> a"
  shows "engine_wf me'"
proof -
  have old: "book_wf (heap me') (next_addr me') bk \<and> set (baddrs b') \<inter> set (baddrs bk) = {}"
    if k: "k \<noteq> symbol" "books me k = Some bk" for k bk
  proof -
    from wf k(2) have w: "distinct (baddrs bk)" "\<forall>a \<in> set (baddrs bk). a < next_addr me"
      "\<forall>l \<in> set (Bids bk) \<union> set (Asks bk). level_ok (heap me) l"
      by (auto simp: engine_wf_def book_wf_def)
    note dj = engine_wf_disjoint [OF wf k]
    have "level_ok (heap me') l" if l: "l \<in> set (Bids bk) \<union> set (Asks bk)" for l
    proof (rule level_ok_cong)
      show "level_ok (heap me) l" using w(3) l by blast
      fix a assume "a \<in> set (LevelOrders l)"
      with baddrs_levels [OF l] have a: "a \<in> set (baddrs bk)" by blast
      with w(2) dj show "qeq (heap me' a) (heap me a)" by (intro hp) auto
    qed
    with w n have 1: "book_wf (heap me') (next_addr me') bk"
      by (auto simp: book_wf_def)
    have 2: "set (baddrs b') \<inter> set (baddrs bk) = {}"
    proof (rule ccontr)
      assume "set (baddrs b') \<inter> set (baddrs bk) \<noteq> {}"
      then obtain a where a: "a \<in> set (baddrs b')" "a \<in> set (baddrs bk)" by blast
      from sub [OF a(1)] a(2) w(2) dj show False by force
    qed
    from 1 2 show ?thesis by simp
  qed
  have 1: "book_wf (heap me') (next_addr me') b" if "books me' k = Some b" for k b
    using that bw old [of k b] by (cases "k = symbol") (simp_all add: bk)
  have 2: "set (baddrs b) \<inter> set (baddrs b2) = {}"
    if "k \<noteq> k2" "books me' k = Some b" "books me' k2 = Some b2" for k k2 b b2
  proof (cases "k = symbol")
    case True
    with that old [of k2 b2] show ?thesis by (simp add: bk)
  next
    case False
    show ?thesis
    proof (cases "k2 = symbol")
      case True
      with that False old [of k b] show ?thesis by (auto simp: bk)
    next
      case k2: False
      with False that wf show ?thesis unfolding engine_wf_def by (simp add: bk)
    qed
  qed
  from 1 2 show ?thesis unfolding engine_wf_def by blast
qed

lemma book_wf_sides_iff:
  "book_wf h n b \<longleftrightarrow>
     distinct (addrs (own_side sd b) @ addrs (opposing sd b))
     \<and> (\<forall>a \<in> set (addrs (own_side sd b)) \<union> set (addrs (opposing sd b)). a < n)
     \<and> (\<forall>l \<in> set (own_side sd b) \<union> set (opposing sd b). level_ok h l)"
  by (cases sd) (auto simp: book_wf_def baddrs_def own_side_def opposing_def)

lemma baddrs_set_sides:
  "set (baddrs b) = set (addrs (own_side sd b)) \<union> set (addrs (opposing sd b))"
  by (cases sd) (auto simp: baddrs_def own_side_def opposing_def)

lemma matchLoop_levels:
  assumes m: "matchLoop sd e h ls x ts = (h', ls', x', ts')" and l': "l' \<in> set ls'"
  shows "\<exists>l0 \<in> set ls. LevelPrice l' = LevelPrice l0 \<and> (\<exists>d. LevelOrders l0 = d @ LevelOrders l')"
proof -
  from l' have "ls' \<noteq> []" by auto
  with matchLoop_ladder [OF m] obtain pre l rest d os' where *: "ls = pre @ l # rest"
    "LevelOrders l = d @ os'" "ls' = l\<lparr>LevelOrders := os'\<rparr> # rest"
    by blast
  from l' *(3) have "l' = l\<lparr>LevelOrders := os'\<rparr> \<or> l' \<in> set rest" by simp
  then show ?thesis
  proof
    assume "l' = l\<lparr>LevelOrders := os'\<rparr>"
    with * have "l \<in> set ls" "LevelPrice l' = LevelPrice l" "LevelOrders l = d @ LevelOrders l'"
      by simp_all
    then show ?thesis by blast
  next
    assume "l' \<in> set rest"
    with * have "l' \<in> set ls" "LevelOrders l' = [] @ LevelOrders l'" by simp_all
    then show ?thesis by blast
  qed
qed

text \<open>The book after the match is well formed in the store after the match.\<close>

lemma book_wf_match:
  assumes bw: "book_wf h n b"
    and m: "matchLoop sd e h (opposing sd b) x ts = (h', ls', x', ts')"
    and x: "agg_ok x"
  shows "book_wf h' n (set_opposing sd ls' b)"
    "set (addrs ls') \<subseteq> set (addrs (opposing sd b))"
proof -
  let ?opp = "opposing sd b" and ?own = "own_side sd b"
  note s = book_wf_sides [OF bw, of sd]
  from matchLoop_addrs [OF m] obtain d where d: "addrs ?opp = d @ addrs ls'" by blast
  then show sub: "set (addrs ls') \<subseteq> set (addrs ?opp)" by auto
  from d s(1) have dl: "distinct (addrs ls')" by simp
  from matchLoop_conserve [OF m s(1) level_ok_resting [OF s(6)] x]
  have ok: "\<forall>a \<in> set (addrs ls'). resting_ok (h' a)" by blast
  have own: "level_ok h' l" if "l \<in> set ?own" for l
  proof (rule level_ok_cong)
    from that s(7) show "level_ok h l" by blast
    fix a assume "a \<in> set (LevelOrders l)"
    with that have "a \<in> set (addrs ?own)" by (auto simp: addrs_def)
    with s(3) have "a \<notin> set (addrs ?opp)" by auto
    from matchLoop_frame [OF m this] show "qeq (h' a) (h a)" by simp
  qed
  have opp: "level_ok h' l'" if "l' \<in> set ls'" for l'
  proof -
    from matchLoop_levels [OF m that] obtain l0 d0 where l0: "l0 \<in> set ?opp"
      "LevelPrice l' = LevelPrice l0" "LevelOrders l0 = d0 @ LevelOrders l'" by blast
    from s(6) l0(1) have lo: "sorted_wrt (<) (LevelOrders l0)"
      "\<forall>a \<in> set (LevelOrders l0). Price (h a) = LevelPrice l0" by (auto simp: level_ok_def)
    from lo(1) l0(3) have 1: "sorted_wrt (<) (LevelOrders l')" by (simp add: sorted_wrt_append)
    have 2: "Price (h' a) = LevelPrice l' \<and> resting_ok (h' a)" if "a \<in> set (LevelOrders l')" for a
    proof -
      from that \<open>l' \<in> set ls'\<close> have "a \<in> set (addrs ls')" by (auto simp: addrs_def)
      with ok have "resting_ok (h' a)" by blast
      moreover from matchLoop_static [OF m, of a] have "Price (h' a) = Price (h a)"
        by (simp add: static_eq_def)
      moreover from that l0(3) lo(2) have "Price (h a) = LevelPrice l0" by simp
      ultimately show ?thesis using l0(2) by simp
    qed
    from 1 2 show ?thesis by (simp add: level_ok_def)
  qed
  from s(2,3) dl sub have "distinct (addrs ?own @ addrs ls')" by auto
  moreover from s(4,5) sub have "\<forall>a \<in> set (addrs ?own) \<union> set (addrs ls'). a < n" by auto
  moreover from own opp have "\<forall>l \<in> set ?own \<union> set ls'. level_ok h' l" by auto
  ultimately show "book_wf h' n (set_opposing sd ls' b)"
    by (simp add: book_wf_sides_iff [of _ _ _ sd])
qed

lemma appendToLevel_levels:
  "appendToLevel p a ls = Some ls' \<Longrightarrow> l' \<in> set ls' \<Longrightarrow>
     l' \<in> set ls \<or> (\<exists>l \<in> set ls. LevelPrice l = p \<and> l' = l\<lparr>LevelOrders := LevelOrders l @ [a]\<rparr>)"
proof (induction ls arbitrary: ls')
  case Nil
  then show ?case by simp
next
  case (Cons l ls)
  show ?case
  proof (cases "LevelPrice l = p")
    case True
    with Cons.prems show ?thesis by auto
  next
    case False
    with Cons.prems obtain r where r: "appendToLevel p a ls = Some r" "ls' = l # r" by auto
    with Cons.prems(2) have "l' = l \<or> l' \<in> set r" by simp
    then show ?thesis
    proof
      assume "l' = l"
      then show ?thesis by simp
    next
      assume "l' \<in> set r"
      from Cons.IH [OF r(1) this] show ?thesis by auto
    qed
  qed
qed

lemma own_side_AddOrder_levels:
  assumes "Side (h a) = sd" "l' \<in> set (own_side sd (AddOrder h a b))"
  shows "l' \<in> set (own_side sd b)
       \<or> (\<exists>l \<in> set (own_side sd b). LevelPrice l = Price (h a)
              \<and> l' = l\<lparr>LevelOrders := LevelOrders l @ [a]\<rparr>)
       \<or> l' = \<lparr>LevelPrice = Price (h a), LevelOrders = [a]\<rparr>"
proof -
  have g: "l' \<in> set ls
       \<or> (\<exists>l \<in> set ls. LevelPrice l = Price (h a) \<and> l' = l\<lparr>LevelOrders := LevelOrders l @ [a]\<rparr>)
       \<or> l' = \<lparr>LevelPrice = Price (h a), LevelOrders = [a]\<rparr>"
    if "l' \<in> set (case appendToLevel (Price (h a)) a ls of Some ls' \<Rightarrow> ls'
          | None \<Rightarrow> sort_key f (ls @ [\<lparr>LevelPrice = Price (h a), LevelOrders = [a]\<rparr>]))"
    for ls and f :: "PriceLevel \<Rightarrow> int"
  proof (cases "appendToLevel (Price (h a)) a ls")
    case None
    with that show ?thesis by auto
  next
    case (Some r)
    with that have "l' \<in> set r" by simp
    from appendToLevel_levels [OF Some this] show ?thesis by blast
  qed
  show ?thesis
  proof (cases sd)
    case BUY
    with assms have "l' \<in> set (addToBids h a (Bids b))"
      by (simp add: own_side_def AddOrder_def Let_def)
    then show ?thesis unfolding addToBids_def using BUY by (auto dest!: g simp: own_side_def)
  next
    case SELL
    with assms have "l' \<in> set (addToAsks h a (Asks b))"
      by (simp add: own_side_def AddOrder_def Let_def)
    then show ?thesis unfolding addToAsks_def using SELL by (auto dest!: g simp: own_side_def)
  qed
qed

text \<open>Publishing an open order in a fresh cell keeps the book well formed: the cell is
  the youngest, and it goes to the tail of the queue of its price.\<close>

lemma book_wf_AddOrder:
  assumes bw: "book_wf h n b" and sd: "Side x = sd" and ok: "resting_ok x"
  shows "book_wf (h(n := x)) (Suc n) (AddOrder (h(n := x)) n b)"
proof -
  let ?h = "h(n := x)"
  let ?b = "AddOrder ?h n b"
  let ?opp = "opposing sd b" and ?own = "own_side sd b"
  note s = book_wf_sides [OF bw, of sd]
  have hsd: "Side (?h n) = sd" using sd by simp
  have opp2: "opposing sd ?b = ?opp"
    by (rule AddOrder_opposing [where h = ?h and a = n, OF hsd])
  from s(4,5) have fresh: "n \<notin> set (addrs ?opp)" "n \<notin> set (addrs ?own)" by auto
  have ms: "mset (addrs (own_side sd ?b)) = mset (n # addrs ?own)"
    by (simp add: own_side_AddOrder [where h = ?h and a = n, OF hsd])
  from mset_eq_imp_distinct_iff [OF ms] s(2) fresh
  have d: "distinct (addrs (own_side sd ?b))" by simp
  from mset_eq_setD [OF ms] have st: "set (addrs (own_side sd ?b)) = insert n (set (addrs ?own))"
    by simp
  have keep: "level_ok ?h l" if "level_ok h l" "n \<notin> set (LevelOrders l)" for l
    using that(1)
  proof (rule level_ok_cong [rotated])
    fix a assume "a \<in> set (LevelOrders l)"
    with that(2) show "qeq (?h a) (h a)" by auto
  qed
  have lv_opp: "level_ok ?h l" if "l \<in> set ?opp" for l
  proof (rule keep)
    from s(6) that show "level_ok h l" by blast
    from that fresh(1) show "n \<notin> set (LevelOrders l)" by (auto simp: addrs_def)
  qed
  have lv_old: "level_ok ?h l" if "l \<in> set ?own" for l
  proof (rule keep)
    from s(7) that show "level_ok h l" by blast
    from that fresh(2) show "n \<notin> set (LevelOrders l)" by (auto simp: addrs_def)
  qed
  have lv_own: "level_ok ?h l'" if "l' \<in> set (own_side sd ?b)" for l'
  proof -
    from own_side_AddOrder_levels [where h = ?h and a = n, OF hsd that]
    consider "l' \<in> set ?own"
      | l where "l \<in> set ?own" "LevelPrice l = Price x"
          "l' = l\<lparr>LevelOrders := LevelOrders l @ [n]\<rparr>"
      | "l' = \<lparr>LevelPrice = Price x, LevelOrders = [n]\<rparr>"
      by auto
    then show ?thesis
    proof cases
      case 1
      then show ?thesis by (rule lv_old)
    next
      case 2
      from lv_old [OF 2(1)] have l: "sorted_wrt (<) (LevelOrders l)"
        "\<forall>a \<in> set (LevelOrders l). Price (?h a) = LevelPrice l \<and> resting_ok (?h a)"
        by (simp_all add: level_ok_def)
      from 2(1) s(5) have "\<forall>a \<in> set (LevelOrders l). a < n" by (auto simp: addrs_def)
      with l(1) have "sorted_wrt (<) (LevelOrders l @ [n])" by (simp add: sorted_wrt_append)
      with l(2) 2(2) ok show ?thesis by (simp add: level_ok_def 2(3))
    next
      case 3
      with ok show ?thesis by (simp add: level_ok_def)
    qed
  qed
  from d s(1) s(3) fresh st have "distinct (addrs (own_side sd ?b) @ addrs ?opp)" by auto
  moreover from s(4,5) st have
    "\<forall>a \<in> set (addrs (own_side sd ?b)) \<union> set (addrs ?opp). a < Suc n" by auto
  moreover from lv_own lv_opp have "\<forall>l \<in> set (own_side sd ?b) \<union> set ?opp. level_ok ?h l"
    by auto
  ultimately show ?thesis
    by (simp add: book_wf_sides_iff [of _ _ _ sd] opp2)
qed

lemma book_wf_mono: "book_wf h n b \<Longrightarrow> n \<le> n' \<Longrightarrow> book_wf h n' b"
  by (auto simp: book_wf_def)

lemma engine_wf_Submit:
  assumes wf: "engine_wf me"
  shows "engine_wf (snd (SubmitOrder e symbol sd ty price qty me))"
proof -
  obtain res me' where sub: "SubmitOrder e symbol sd ty price qty me = (res, me')"
    by (cases "SubmitOrder e symbol sd ty price qty me") auto
  let ?b = "the_book symbol me"
  let ?n = "next_addr me"
  note bw = engine_wf_the_book [OF wf, of symbol]
  have "engine_wf me'"
  proof (cases res)
    case (Inl err)
    with sub SubmitOrder_Inl [of e symbol sd ty price qty me err me']
    have "me' = me \<or> me' = snd (GetOrCreateBook symbol me)" by auto
    then show ?thesis
    proof
      assume "me' = me"
      with wf show ?thesis by simp
    next
      assume "me' = snd (GetOrCreateBook symbol me)"
      then have me': "me' = me\<lparr>books := (books me)(symbol \<mapsto> ?b)\<rparr>"
        by (simp add: GetOrCreateBook_eq)
      show ?thesis
        by (rule engine_wf_update [OF wf, of me' symbol ?b]) (use bw in \<open>simp_all add: me'\<close>)
    qed
  next
    case (Inr r)
    let ?x = "NewOrder e symbol sd ty price qty"
    from sub Inr obtain h' ls' x' where
      m: "matchLoop sd e (heap me) (opposing sd ?b) ?x [] = (h', ls', x', Trades r)"
      and valid: "\<not> qty \<le>s 0"
      and rest: "rests ty x' \<longrightarrow>
         me' = me\<lparr>books := (books me)(symbol \<mapsto>
                   AddOrder (h'(?n := x')) ?n (set_opposing sd ls' ?b)),
                 heap := h'(?n := x'), next_addr := Suc ?n\<rparr>
         \<and> RemainingQuantity r = Quantity x' - FilledQuantity x'
         \<and> ResultStatus r = (if 0 <s FilledQuantity x' then PARTIAL_FILL else ACCEPTED)"
      and norest: "\<not> rests ty x' \<longrightarrow>
         me' = me\<lparr>books := (books me)(symbol \<mapsto> set_opposing sd ls' ?b), heap := h'\<rparr>
         \<and> RemainingQuantity r = 0
         \<and> ResultStatus r = (if FilledQuantity x' = Quantity x' then FILLED else Status x')"
      by (auto elim: SubmitOrder_Inr)
    from valid have pos: "0 <s qty" by (simp add: word_sle_eq word_sless_alt)
    note ax = agg_ok_NewOrder [OF pos, of e symbol sd ty price]
    note bm = book_wf_match [OF bw m ax]
    note s = book_wf_sides [OF bw, of sd]
    from matchLoop_conserve [OF m s(1) level_ok_resting [OF s(6)] ax] have ax': "agg_ok x'"
      by blast
    from matchLoop_aggressor [OF m] have x': "Side x' = sd" by (simp add: static_eq_def)
    have fr: "h' a = heap me a" if "a \<notin> set (baddrs ?b)" for a
    proof -
      from that have "a \<notin> set (addrs (opposing sd ?b))" by (simp add: baddrs_set_sides [of _ sd])
      from matchLoop_frame [OF m this] show ?thesis .
    qed
    have sb: "set (baddrs (set_opposing sd ls' ?b)) \<subseteq> set (baddrs ?b)"
      using bm(2) by (auto simp: baddrs_set_sides [of _ sd])
    show ?thesis
    proof (cases "rests ty x'")
      case False
      with norest have me': "me' = me\<lparr>books := (books me)(symbol \<mapsto> set_opposing sd ls' ?b),
          heap := h'\<rparr>" by simp
      show ?thesis
      proof (rule engine_wf_update [OF wf, of me' symbol "set_opposing sd ls' ?b"])
        show "book_wf (heap me') (next_addr me') (set_opposing sd ls' ?b)"
          using bm(1) by (simp add: me')
        show "qeq (heap me' a) (heap me a)" if "a \<notin> set (baddrs ?b)" for a
          using fr [OF that] by (simp add: me')
        show "a \<in> set (baddrs ?b) \<or> next_addr me \<le> a"
          if "a \<in> set (baddrs (set_opposing sd ls' ?b))" for a
          using that sb by auto
      qed (simp_all add: me')
    next
      case True
      with rest have me': "me' = me\<lparr>books := (books me)(symbol \<mapsto>
                   AddOrder (h'(?n := x')) ?n (set_opposing sd ls' ?b)),
                 heap := h'(?n := x'), next_addr := Suc ?n\<rparr>" by simp
      from True ax' have ok: "resting_ok x'"
        by (simp add: rests_def is_open_def agg_ok_def resting_ok_def)
      note ba = book_wf_AddOrder [OF bm(1) x' ok]
      let ?b2 = "AddOrder (h'(?n := x')) ?n (set_opposing sd ls' ?b)"
      have ms: "mset (baddrs ?b2) = mset (?n # baddrs (set_opposing sd ls' ?b))"
        using own_side_AddOrder [where h = "h'(?n := x')" and a = ?n and sd = sd
            and b = "set_opposing sd ls' ?b"] x'
        by (simp add: baddrs_sides [of _ sd]
            AddOrder_opposing [where h = "h'(?n := x')" and a = ?n and sd = sd])
      show ?thesis
      proof (rule engine_wf_update [OF wf, of me' symbol ?b2])
        show "book_wf (heap me') (next_addr me') ?b2" using ba by (simp add: me')
        show "qeq (heap me' a) (heap me a)" if "a < next_addr me" "a \<notin> set (baddrs ?b)" for a
          using fr [OF that(2)] that(1) by (simp add: me')
        show "a \<in> set (baddrs ?b) \<or> next_addr me \<le> a" if "a \<in> set (baddrs ?b2)" for a
        proof -
          from that mset_eq_setD [OF ms] have "a = ?n \<or> a \<in> set (baddrs (set_opposing sd ls' ?b))"
            by auto
          with sb show ?thesis by auto
        qed
      qed (simp_all add: me')
    qed
  qed
  with sub show ?thesis by simp
qed

lemma removeByID_cases:
  "removeByID h oid os = os \<or> (\<exists>pre a post. os = pre @ a # post \<and> removeByID h oid os = pre @ post)"
proof (induction os)
  case Nil
  then show ?case by simp
next
  case (Cons a os)
  show ?case
  proof (cases "ID (h a) = oid")
    case True
    then have "a # os = [] @ a # os \<and> removeByID h oid (a # os) = [] @ os" by simp
    then show ?thesis by blast
  next
    case False
    from Cons.IH show ?thesis
    proof
      assume "removeByID h oid os = os"
      with False show ?thesis by simp
    next
      assume "\<exists>pre b post. os = pre @ b # post \<and> removeByID h oid os = pre @ post"
      then obtain pre b post where "os = pre @ b # post" "removeByID h oid os = pre @ post"
        by blast
      with False have "a # os = (a # pre) @ b # post
          \<and> removeByID h oid (a # os) = (a # pre) @ post" by simp
      then show ?thesis by blast
    qed
  qed
qed

lemma removeByID_props:
  "set (removeByID h oid os) \<subseteq> set os"
  "distinct os \<Longrightarrow> distinct (removeByID h oid os)"
  "sorted_wrt (<) os \<Longrightarrow> sorted_wrt (<) (removeByID h oid os)"
  using removeByID_cases [of h oid os] by (auto simp: sorted_wrt_append)

lemma removeFromLevels_levels:
  "l' \<in> set (removeFromLevels h x ls) \<Longrightarrow>
     l' \<in> set ls \<or> (\<exists>l \<in> set ls. l' = l\<lparr>LevelOrders := removeByID h (ID x) (LevelOrders l)\<rparr>)"
proof (induction ls)
  case Nil
  then show ?case by simp
next
  case (Cons l1 ls)
  show ?case
  proof (cases "LevelPrice l1 = Price x")
    case False
    with Cons show ?thesis by auto
  next
    case True
    show ?thesis
    proof (cases "removeByID h (ID x) (LevelOrders l1) = []")
      case True
      with \<open>LevelPrice l1 = Price x\<close> Cons.prems show ?thesis by (auto simp: Let_def)
    next
      case False
      with \<open>LevelPrice l1 = Price x\<close> Cons.prems
      have "l' = l1\<lparr>LevelOrders := removeByID h (ID x) (LevelOrders l1)\<rparr> \<or> l' \<in> set ls"
        by (simp add: Let_def)
      then show ?thesis by auto
    qed
  qed
qed

lemma removeFromLevels_addrs:
  "set (addrs (removeFromLevels h x ls)) \<subseteq> set (addrs ls)"
  "distinct (addrs ls) \<Longrightarrow> distinct (addrs (removeFromLevels h x ls))"
proof -
  show sub: "set (addrs (removeFromLevels h x ls)) \<subseteq> set (addrs ls)" for ls
    using removeByID_props(1) [where h = h and oid = "ID x"]
    by (induction ls) (auto simp: Let_def)
  show "distinct (addrs ls) \<Longrightarrow> distinct (addrs (removeFromLevels h x ls))"
  proof (induction ls)
    case Nil
    then show ?case by simp
  next
    case (Cons l ls)
    from Cons.prems have d: "distinct (LevelOrders l)" "distinct (addrs ls)"
      "set (LevelOrders l) \<inter> set (addrs ls) = {}" by auto
    show ?case
    proof (cases "LevelPrice l = Price x")
      case True
      with d removeByID_props(1,2) [where h = h and oid = "ID x" and os = "LevelOrders l"]
      show ?thesis
        by (auto simp: Let_def)
    next
      case False
      with d Cons.IH sub [of ls] show ?thesis by auto
    qed
  qed
qed

lemma level_ok_removeByID:
  "level_ok h l \<Longrightarrow> level_ok h (l\<lparr>LevelOrders := removeByID h2 oid (LevelOrders l)\<rparr>)"
  using removeByID_props(1,3) [where h = h2 and oid = oid and os = "LevelOrders l"]
  by (auto simp: level_ok_def)

lemma book_wf_qeq:
  "book_wf h n b \<Longrightarrow> (\<And>a. qeq (h' a) (h a)) \<Longrightarrow> book_wf h' n b"
  by (auto simp: book_wf_def intro: level_ok_cong)

lemma book_wf_remove:
  assumes "book_wf h n b"
  shows "book_wf h n (removeFromBids h2 x b)" "book_wf h n (removeFromAsks h2 x b)"
    "set (baddrs (removeFromBids h2 x b)) \<subseteq> set (baddrs b)"
    "set (baddrs (removeFromAsks h2 x b)) \<subseteq> set (baddrs b)"
proof -
  from assms have w: "distinct (addrs (Bids b))" "distinct (addrs (Asks b))"
    "set (addrs (Bids b)) \<inter> set (addrs (Asks b)) = {}"
    "\<forall>a \<in> set (addrs (Bids b)) \<union> set (addrs (Asks b)). a < n"
    "\<forall>l \<in> set (Bids b). level_ok h l" "\<forall>l \<in> set (Asks b). level_ok h l"
    by (auto simp: book_wf_def baddrs_def)
  have lv: "level_ok h l'" if "l' \<in> set (removeFromLevels h2 x ls)" "\<forall>l \<in> set ls. level_ok h l"
    for l' ls
    using removeFromLevels_levels [OF that(1)] that(2) by (auto intro: level_ok_removeByID)
  note rb = removeFromLevels_addrs [where h = h2 and x = x and ls = "Bids b"]
  note ra = removeFromLevels_addrs [where h = h2 and x = x and ls = "Asks b"]
  from w rb lv [of _ "Bids b"]
  show "book_wf h n (removeFromBids h2 x b)"
    unfolding book_wf_def baddrs_def removeFromBids_def by (simp; blast)
  from w ra lv [of _ "Asks b"]
  show "book_wf h n (removeFromAsks h2 x b)"
    unfolding book_wf_def baddrs_def removeFromAsks_def by (simp; blast)
  from rb(1) show "set (baddrs (removeFromBids h2 x b)) \<subseteq> set (baddrs b)"
    by (auto simp: baddrs_def removeFromBids_def)
  from ra(1) show "set (baddrs (removeFromAsks h2 x b)) \<subseteq> set (baddrs b)"
    by (auto simp: baddrs_def removeFromAsks_def)
qed

lemma engine_wf_Cancel: "engine_wf me \<Longrightarrow> engine_wf (snd (CancelOrder ks oid me))"
proof (induction ks)
  case Nil
  then show ?case by simp
next
  case (Cons k ks)
  show ?case
  proof (cases "books me k")
    case None
    with Cons show ?thesis by simp
  next
    case (Some book)
    note bk = Some
    show ?thesis
    proof (cases "Orders book oid")
      case None
      with bk Cons show ?thesis by simp
    next
      case (Some a)
      show ?thesis
      proof (cases "Status (heap me a) = FILLED")
        case True
        with bk Some Cons.prems show ?thesis by simp
      next
        case False
        let ?h = "(heap me)(a := (heap me a)\<lparr>Status := CANCELLED\<rparr>)"
        let ?b' = "if Side (?h a) = BUY then removeFromBids ?h (?h a) book
                   else removeFromAsks ?h (?h a) book"
        let ?me' = "me\<lparr>books := (books me)(k \<mapsto> ?b'), heap := ?h\<rparr>"
        from bk Some False have r: "snd (CancelOrder (k # ks) oid me) = ?me'"
          by (simp add: RemoveOrder_def Let_def)
        have tb: "the_book k me = book" by (rule the_book_simps(1) [OF bk])
        have q: "qeq (?h a') (heap me a')" for a' by simp
        from engine_wf_the_book [OF Cons.prems, of k] have bw: "book_wf (heap me) (next_addr me) book"
          by (simp add: tb)
        from book_wf_remove [OF bw, where ?h2.0 = ?h and x = "?h a"]
        have bw': "book_wf (heap me) (next_addr me) ?b'" "set (baddrs ?b') \<subseteq> set (baddrs book)"
          by (simp_all split: if_splits)
        have "engine_wf ?me'"
        proof (rule engine_wf_update [OF Cons.prems, of ?me' k ?b'])
          show "book_wf (heap ?me') (next_addr ?me') ?b'"
            using book_wf_qeq [OF bw'(1), of ?h] q by simp
          show "a' \<in> set (baddrs (the_book k me)) \<or> next_addr me \<le> a'"
            if "a' \<in> set (baddrs ?b')" for a'
            using that bw'(2) by (auto simp: tb)
          show "qeq (heap ?me' a') (heap me a')" for a' using q by simp
        qed simp_all
        with r show ?thesis by simp
      qed
    qed
  qed
qed

lemma engine_wf_New: "engine_wf NewMatchingEngine"
  by (simp add: engine_wf_def)

text \<open>Every state the engine can reach from the empty one is well formed.\<close>

lemma engine_wf_run: "engine_wf (run ops)"
proof (rule run_induct)
  show "engine_wf NewMatchingEngine" by (rule engine_wf_New)
  show "engine_wf (apply_op me op)" if "engine_wf me" for me op
    using that by (cases op) (simp_all add: engine_wf_Submit engine_wf_Cancel)
qed

text \<open>The three resting asks as a run of the engine.\<close>

lemma run_three_asks:
  "run [Submit (env_of ''s1'') ''AAPL'' SELL LIMIT 15050 100,
        Submit (env_of ''s2'') ''AAPL'' SELL LIMIT 15050 100,
        Submit (env_of ''s3'') ''AAPL'' SELL LIMIT 15050 100] = three_asks"
  by (simp add: run_def three_asks_def one_ask_def)

lemma same_trade_mono: "same_trade P t1 t2 \<Longrightarrow> P \<subseteq> Q \<Longrightarrow> same_trade Q t1 t2"
  by (auto simp: same_trade_def)

lemma cell_sim_simps:
  assumes "cell_sim x y"
  shows "is_open x = is_open y" "cell_sim (fill q x) (fill q y)"
    "cell_sim (x\<lparr>Status := s\<rparr>) (y\<lparr>Status := s\<rparr>)"
    "Quantity x = Quantity y" "FilledQuantity x = FilledQuantity y" "Price x = Price y"
    "Side x = Side y" "Type x = Type y"
  using assms by (simp_all add: cell_sim_def is_open_def fill_def)

lemma trade_qty_sim: "cell_sim x1 x2 \<Longrightarrow> cell_sim r1 r2 \<Longrightarrow> trade_qty x1 r1 = trade_qty x2 r2"
  by (simp add: cell_sim_def trade_qty_def)

lemma price_stop_sim: "cell_sim x1 x2 \<Longrightarrow> price_stop sd x1 l = price_stop sd x2 l"
  by (simp add: cell_sim_def price_stop_def)

lemma ID_fill [simp]: "ID (fill q x) = ID x"
  by (simp add: fill_def)

lemma mk_trade_sim:
  assumes "(ID x1, ID x2) \<in> P" "(ID r1, ID r2) \<in> P" "Price r1 = Price r2"
  shows "same_trade P (mk_trade sd e1 n1 x1 r1 q) (mk_trade sd e2 n2 x2 r2 q)"
  using assms by (simp add: same_trade_def mk_trade_def)

lemma matchLevel_sim:
  assumes "\<forall>a. cell_sim (h1 a) (h2 a)" "cell_sim x1 x2" "list_all2 (same_trade P) ts1 ts2"
      "(ID x1, ID x2) \<in> P" "\<forall>r \<in> set os. (ID (h1 r), ID (h2 r)) \<in> P"
      "matchLevel sd e1 h1 os x1 ts1 = (h1', os1, x1', ts1')"
      "matchLevel sd e2 h2 os x2 ts2 = (h2', os2, x2', ts2')"
  shows "(\<forall>a. cell_sim (h1' a) (h2' a)) \<and> os1 = os2 \<and> cell_sim x1' x2'
       \<and> list_all2 (same_trade P) ts1' ts2'"
  using assms
proof (induction os arbitrary: h1 h2 x1 x2 ts1 ts2)
  case Nil
  then show ?case by simp
next
  case (Cons r os)
  let ?q = "trade_qty x1 (h1 r)"
  from Cons.prems(1) have cr: "cell_sim (h1 r) (h2 r)" by simp
  note cx = Cons.prems(2)
  have q: "trade_qty x2 (h2 r) = ?q" using trade_qty_sim [OF cx cr] by simp
  have op: "is_open x2 = is_open x1" using cell_sim_simps(1) [OF cx] by simp
  have rq: "Quantity (h2 r) = Quantity (h1 r)" "FilledQuantity (h2 r) = FilledQuantity (h1 r)"
    using cr by (simp_all add: cell_sim_def)
  let ?t1 = "mk_trade sd e1 (length ts1) x1 (h1 r) ?q"
  let ?t2 = "mk_trade sd e2 (length ts2) x2 (h2 r) ?q"
  have t: "same_trade P ?t1 ?t2"
    using Cons.prems(4,5) cr by (intro mk_trade_sim) (simp_all add: cell_sim_def)
  with Cons.prems(3) have ts: "list_all2 (same_trade P) (ts1 @ [?t1]) (ts2 @ [?t2])"
    by (simp add: list_all2_appendI)
  have fx: "cell_sim (fill ?q x1) (fill ?q x2)" by (rule cell_sim_simps(2) [OF cx])
  have fr: "cell_sim ((fill ?q (h1 r))\<lparr>Status := s\<rparr>) ((fill ?q (h2 r))\<lparr>Status := s\<rparr>)" for s
    using cr by (simp add: cell_sim_def fill_def)
  show ?case
  proof (cases "is_open x1")
    case False
    from Cons.prems(6) False have r1: "h1' = h1" "os1 = r # os" "x1' = x1" "ts1' = ts1"
      by simp_all
    from Cons.prems(7) False op have r2: "h2' = h2" "os2 = r # os" "x2' = x2" "ts2' = ts2"
      by simp_all
    show ?thesis unfolding r1 r2 using Cons.prems(1,2,3) by simp
  next
    case True
    show ?thesis
    proof (cases "?q = Quantity (h1 r) - FilledQuantity (h1 r)")
      case full: True
      let ?h1 = "h1(r := (fill ?q (h1 r))\<lparr>Status := FILLED\<rparr>)"
      let ?h2 = "h2(r := (fill ?q (h2 r))\<lparr>Status := FILLED\<rparr>)"
      from Cons.prems(6) True full
      have m1: "matchLevel sd e1 ?h1 os (fill ?q x1) (ts1 @ [?t1]) = (h1', os1, x1', ts1')"
        by simp
      from Cons.prems(7) True full op q rq
      have m2: "matchLevel sd e2 ?h2 os (fill ?q x2) (ts2 @ [?t2]) = (h2', os2, x2', ts2')"
        by simp
      have a: "\<forall>a. cell_sim (?h1 a) (?h2 a)" using Cons.prems(1) fr by simp
      have b: "(ID (fill ?q x1), ID (fill ?q x2)) \<in> P" using Cons.prems(4) by simp
      have c: "\<forall>r' \<in> set os. (ID (?h1 r'), ID (?h2 r')) \<in> P"
        using Cons.prems(5) by simp
      from Cons.IH [OF a fx ts b c m1 m2] show ?thesis .
    next
      case part: False
      from Cons.prems(6) True part
      have r1: "h1' = h1(r := (fill ?q (h1 r))\<lparr>Status := PARTIAL_FILL\<rparr>)" "os1 = r # os"
        "x1' = fill ?q x1" "ts1' = ts1 @ [?t1]"
        by simp_all
      from Cons.prems(7) True part op q rq
      have r2: "h2' = h2(r := (fill ?q (h2 r))\<lparr>Status := PARTIAL_FILL\<rparr>)" "os2 = r # os"
        "x2' = fill ?q x2" "ts2' = ts2 @ [?t2]"
        by simp_all
      show ?thesis unfolding r1 r2 using Cons.prems(1) fr fx ts by simp
    qed
  qed
qed

lemma static_eq_ID: "static_eq x y \<Longrightarrow> ID x = ID y"
  by (simp add: static_eq_def)

lemma matchLoop_sim:
  assumes "\<forall>a. cell_sim (h1 a) (h2 a)" "cell_sim x1 x2" "list_all2 (same_trade P) ts1 ts2"
      "(ID x1, ID x2) \<in> P" "\<forall>r \<in> set (addrs ls). (ID (h1 r), ID (h2 r)) \<in> P"
      "matchLoop sd e1 h1 ls x1 ts1 = (h1', ls1, x1', ts1')"
      "matchLoop sd e2 h2 ls x2 ts2 = (h2', ls2, x2', ts2')"
  shows "(\<forall>a. cell_sim (h1' a) (h2' a)) \<and> ls1 = ls2 \<and> cell_sim x1' x2'
       \<and> list_all2 (same_trade P) ts1' ts2'"
  using assms
proof (induction ls arbitrary: h1 h2 x1 x2 ts1 ts2)
  case Nil
  then show ?case by simp
next
  case (Cons l ls)
  note cx = Cons.prems(2)
  have op: "is_open x2 = is_open x1" using cell_sim_simps(1) [OF cx] by simp
  have ps: "price_stop sd x2 l = price_stop sd x1 l" using price_stop_sim [OF cx] by simp
  obtain g1 os1 y1 us1 where m1: "matchLevel sd e1 h1 (LevelOrders l) x1 ts1 = (g1, os1, y1, us1)"
    by (cases "matchLevel sd e1 h1 (LevelOrders l) x1 ts1") auto
  obtain g2 os2 y2 us2 where m2: "matchLevel sd e2 h2 (LevelOrders l) x2 ts2 = (g2, os2, y2, us2)"
    by (cases "matchLevel sd e2 h2 (LevelOrders l) x2 ts2") auto
  from Cons.prems(5) have q: "\<forall>r \<in> set (LevelOrders l). (ID (h1 r), ID (h2 r)) \<in> P"
    by simp
  from matchLevel_sim [OF Cons.prems(1) cx Cons.prems(3,4) q m1 m2]
  have s: "\<forall>a. cell_sim (g1 a) (g2 a)" "os1 = os2" "cell_sim y1 y2"
    "list_all2 (same_trade P) us1 us2"
    by blast+
  have ids: "ID (g1 a) = ID (h1 a)" "ID (g2 a) = ID (h2 a)" for a
    using matchLevel_static [OF m1, of a] matchLevel_static [OF m2, of a]
    by (simp_all add: static_eq_def)
  have idx: "ID y1 = ID x1" "ID y2 = ID x2"
    using matchLevel_aggressor [OF m1] matchLevel_aggressor [OF m2]
    by (simp_all add: static_eq_def)
  show ?case
  proof (cases "is_open x1 \<and> \<not> price_stop sd x1 l")
    case False
    from Cons.prems(6) False have r1: "h1' = h1" "ls1 = l # ls" "x1' = x1" "ts1' = ts1"
      by auto
    from Cons.prems(7) False op ps have r2: "h2' = h2" "ls2 = l # ls" "x2' = x2" "ts2' = ts2"
      by auto
    show ?thesis unfolding r1 r2 using Cons.prems(1,2,3) by simp
  next
    case True
    show ?thesis
    proof (cases "os1 = []")
      case e: True
      from Cons.prems(6) True m1 e
      have n1: "matchLoop sd e1 g1 ls y1 us1 = (h1', ls1, x1', ts1')" by simp
      from Cons.prems(7) True m2 e s(2) op ps
      have n2: "matchLoop sd e2 g2 ls y2 us2 = (h2', ls2, x2', ts2')" by simp
      have b: "(ID y1, ID y2) \<in> P" using Cons.prems(4) idx by simp
      have c: "\<forall>r \<in> set (addrs ls). (ID (g1 r), ID (g2 r)) \<in> P"
        using Cons.prems(5) ids by simp
      from Cons.IH [OF s(1) s(3) s(4) b c n1 n2] show ?thesis .
    next
      case ne: False
      from Cons.prems(6) True m1 ne
      have r1: "h1' = g1" "ls1 = l\<lparr>LevelOrders := os1\<rparr> # ls" "x1' = y1" "ts1' = us1"
        by simp_all
      from Cons.prems(7) True m2 ne s(2) op ps
      have r2: "h2' = g2" "ls2 = l\<lparr>LevelOrders := os2\<rparr> # ls" "x2' = y2" "ts2' = us2"
        by simp_all
      show ?thesis unfolding r1 r2 using s by simp
    qed
  qed
qed

lemma availableLiquidity_sim:
  assumes "\<forall>a. cell_sim (h1 a) (h2 a)"
  shows "availableLiquidity h1 ls = availableLiquidity h2 ls"
proof -
  have "(\<lambda>acc a. acc + (Quantity (h1 a) - FilledQuantity (h1 a)))
      = (\<lambda>acc a. acc + (Quantity (h2 a) - FilledQuantity (h2 a)))"
    using assms by (simp add: cell_sim_def fun_eq_iff)
  then show ?thesis by (simp add: availableLiquidity_def)
qed

lemma the_book_at_upd:
  "the_book k (me\<lparr>books := (books me)(symbol \<mapsto> b)\<rparr>) = (if k = symbol then b else the_book k me)"
  by (simp add: the_book_def GetOrCreateBook_def split: option.splits)

lemma the_book_at_upd2:
  "the_book k (me\<lparr>books := (books me)(symbol \<mapsto> b), heap := h\<rparr>)
     = (if k = symbol then b else the_book k me)"
  "the_book k (me\<lparr>books := (books me)(symbol \<mapsto> b), heap := h, next_addr := n\<rparr>)
     = (if k = symbol then b else the_book k me)"
  by (simp_all add: the_book_def GetOrCreateBook_def split: option.splits)

lemma SubmitOrder_fails:
  "isl (fst (SubmitOrder e symbol sd ty price qty me)) \<longleftrightarrow>
     qty \<le>s 0 \<or> (ty = LIMIT \<and> price \<le>s 0)
     \<or> (ty = MARKET \<and> availableLiquidity (heap me) (opposing sd (the_book symbol me)) <s qty)"
  by (simp add: SubmitOrder_def GetOrCreateBook_eq matchOrder_eq NewOrder_def Let_def
      split: prod.splits)

lemma AddOrder_sim:
  assumes "Side (h1 a) = Side (h2 a)" "Price (h1 a) = Price (h2 a)"
    "Bids b1 = Bids b2" "Asks b1 = Asks b2"
  shows "Bids (AddOrder h1 a b1) = Bids (AddOrder h2 a b2)"
    "Asks (AddOrder h1 a b1) = Asks (AddOrder h2 a b2)"
  using assms
  by (simp_all add: AddOrder_def addToBids_def addToAsks_def Let_def split: option.splits)

lemma set_opposing_sim:
  assumes "Bids b1 = Bids b2" "Asks b1 = Asks b2"
  shows "Bids (set_opposing sd ls b1) = Bids (set_opposing sd ls b2)"
    "Asks (set_opposing sd ls b1) = Asks (set_opposing sd ls b2)"
  using assms by (simp_all add: set_opposing_def)

lemma engine_sim_mono: "engine_sim P me1 me2 \<Longrightarrow> P \<subseteq> Q \<Longrightarrow> engine_sim Q me1 me2"
  by (auto simp: engine_sim_def)

lemma engine_sim_GetOrCreateBook:
  "engine_sim P me1 me2 \<Longrightarrow>
   engine_sim P (snd (GetOrCreateBook symbol me1)) (snd (GetOrCreateBook symbol me2))"
  by (simp add: engine_sim_def GetOrCreateBook_eq the_book_at_upd)

lemma SubmitOrder_Inr_state:
  assumes "SubmitOrder e symbol sd ty price qty me = (Inr r, me')"
  shows "\<exists>h' ls' x'.
      matchLoop sd e (heap me) (opposing sd (the_book symbol me))
        (NewOrder e symbol sd ty price qty) [] = (h', ls', x', Trades r)
    \<and> me' = (if rests ty x'
         then me\<lparr>books := (books me)(symbol \<mapsto>
                   AddOrder (h'(next_addr me := x')) (next_addr me)
                     (set_opposing sd ls' (the_book symbol me))),
                 heap := h'(next_addr me := x'), next_addr := Suc (next_addr me)\<rparr>
         else me\<lparr>books := (books me)(symbol \<mapsto> set_opposing sd ls' (the_book symbol me)),
                 heap := h'\<rparr>)"
proof (rule SubmitOrder_Inr [OF assms])
  fix h' ls' x'
  assume m: "matchLoop sd e (heap me) (opposing sd (the_book symbol me))
        (NewOrder e symbol sd ty price qty) [] = (h', ls', x', Trades r)"
    and a: "rests ty x' \<longrightarrow>
       me' = me\<lparr>books := (books me)(symbol \<mapsto>
                 AddOrder (h'(next_addr me := x')) (next_addr me)
                   (set_opposing sd ls' (the_book symbol me))),
               heap := h'(next_addr me := x'), next_addr := Suc (next_addr me)\<rparr>
       \<and> RemainingQuantity r = Quantity x' - FilledQuantity x'
       \<and> ResultStatus r = (if 0 <s FilledQuantity x' then PARTIAL_FILL else ACCEPTED)"
    and b: "\<not> rests ty x' \<longrightarrow>
       me' = me\<lparr>books := (books me)(symbol \<mapsto> set_opposing sd ls' (the_book symbol me)),
               heap := h'\<rparr>
       \<and> RemainingQuantity r = 0
       \<and> ResultStatus r = (if FilledQuantity x' = Quantity x' then FILLED else Status x')"
  have "me' = (if rests ty x'
         then me\<lparr>books := (books me)(symbol \<mapsto>
                   AddOrder (h'(next_addr me := x')) (next_addr me)
                     (set_opposing sd ls' (the_book symbol me))),
                 heap := h'(next_addr me := x'), next_addr := Suc (next_addr me)\<rparr>
         else me\<lparr>books := (books me)(symbol \<mapsto> set_opposing sd ls' (the_book symbol me)),
                 heap := h'\<rparr>)"
  proof (cases "rests ty x'")
    case True
    with a show ?thesis by simp
  next
    case False
    with b show ?thesis by simp
  qed
  with m show ?thesis by blast
qed

lemma SubmitOrder_sim:
  assumes sim: "engine_sim P me1 me2" and wf: "engine_wf me1"
    and s1: "SubmitOrder e1 symbol sd ty price qty me1 = (res1, me1')"
    and s2: "SubmitOrder e2 symbol sd ty price qty me2 = (res2, me2')"
    and P': "P' = insert (uuid_New e1 0, uuid_New e2 0) P"
  shows "engine_sim P' me1' me2'
       \<and> ((\<exists>err1 err2. res1 = Inl err1 \<and> res2 = Inl err2)
          \<or> (\<exists>r1 r2. res1 = Inr r1 \<and> res2 = Inr r2
                \<and> list_all2 (same_trade P') (Trades r1) (Trades r2)))"
proof -
  let ?b1 = "the_book symbol me1" and ?b2 = "the_book symbol me2"
  let ?n = "next_addr me1"
  from sim have n: "next_addr me2 = ?n"
    and lad: "Bids ?b1 = Bids ?b2" "Asks ?b1 = Asks ?b2"
    and cells: "\<forall>a. cell_sim (heap me1 a) (heap me2 a)"
    and tr: "\<forall>a < ?n. (ID (heap me1 a), ID (heap me2 a)) \<in> P"
    by (simp_all add: engine_sim_def)
  from lad have opp: "opposing sd ?b2 = opposing sd ?b1" by (simp add: opposing_def)
  have liq: "availableLiquidity (heap me2) (opposing sd ?b1)
      = availableLiquidity (heap me1) (opposing sd ?b1)"
    using availableLiquidity_sim [OF cells] by simp
  have sub: "P \<subseteq> P'" using P' by auto
  have fails: "isl res1 = isl res2"
    using SubmitOrder_fails [of e1 symbol sd ty price qty me1]
      SubmitOrder_fails [of e2 symbol sd ty price qty me2] s1 s2 opp liq by simp
  show ?thesis
  proof (cases res1)
    case (Inl err1)
    with fails obtain err2 where r2: "res2 = Inl err2" by (cases res2) auto
    from SubmitOrder_Inl [OF s1 [unfolded Inl]] SubmitOrder_Inl [OF s2 [unfolded r2]]
    have "(me1' = me1 \<and> me2' = me2)
        \<or> (me1' = snd (GetOrCreateBook symbol me1) \<and> me2' = snd (GetOrCreateBook symbol me2))"
      by auto
    with sim have "engine_sim P me1' me2'" by (auto intro: engine_sim_GetOrCreateBook)
    with Inl r2 sub show ?thesis by (auto intro: engine_sim_mono)
  next
    case (Inr r1)
    with fails obtain r2 where r2: "res2 = Inr r2" by (cases res2) auto
    let ?x1 = "NewOrder e1 symbol sd ty price qty" and ?x2 = "NewOrder e2 symbol sd ty price qty"
    from SubmitOrder_Inr_state [OF s1 [unfolded Inr]] obtain h1' ls1 x1' where
      m1: "matchLoop sd e1 (heap me1) (opposing sd ?b1) ?x1 [] = (h1', ls1, x1', Trades r1)"
      and st1: "me1' = (if rests ty x1'
         then me1\<lparr>books := (books me1)(symbol \<mapsto>
                   AddOrder (h1'(?n := x1')) ?n (set_opposing sd ls1 ?b1)),
                 heap := h1'(?n := x1'), next_addr := Suc ?n\<rparr>
         else me1\<lparr>books := (books me1)(symbol \<mapsto> set_opposing sd ls1 ?b1), heap := h1'\<rparr>)"
      by blast
    from SubmitOrder_Inr_state [OF s2 [unfolded r2]] obtain h2' ls2 x2' where
      m2: "matchLoop sd e2 (heap me2) (opposing sd ?b2) ?x2 [] = (h2', ls2, x2', Trades r2)"
      and st2: "me2' = (if rests ty x2'
         then me2\<lparr>books := (books me2)(symbol \<mapsto>
                   AddOrder (h2'(next_addr me2 := x2')) (next_addr me2)
                     (set_opposing sd ls2 ?b2)),
                 heap := h2'(next_addr me2 := x2'), next_addr := Suc (next_addr me2)\<rparr>
         else me2\<lparr>books := (books me2)(symbol \<mapsto> set_opposing sd ls2 ?b2), heap := h2'\<rparr>)"
      by blast
    note m2 = m2 [unfolded opp]
    have cx: "cell_sim ?x1 ?x2" by (simp add: cell_sim_def NewOrder_def)
    have idx: "(ID ?x1, ID ?x2) \<in> P'" by (simp add: P' NewOrder_def)
    have bound: "\<forall>r \<in> set (addrs (opposing sd ?b1)). r < ?n"
      using engine_wf_the_book [OF wf, of symbol]
      by (auto simp: book_wf_def baddrs_def opposing_def)
    with tr sub have q: "\<forall>r \<in> set (addrs (opposing sd ?b1)).
        (ID (heap me1 r), ID (heap me2 r)) \<in> P'"
      by blast
    have "list_all2 (same_trade P') [] []" by simp
    from matchLoop_sim [OF cells cx this idx q m1 m2]
    have s: "\<forall>a. cell_sim (h1' a) (h2' a)" "ls2 = ls1" "cell_sim x1' x2'"
      "list_all2 (same_trade P') (Trades r1) (Trades r2)"
      by simp_all
    have ids: "ID (h1' a) = ID (heap me1 a)" "ID (h2' a) = ID (heap me2 a)" for a
      using matchLoop_static [OF m1, of a] matchLoop_static [OF m2, of a]
      by (simp_all add: static_eq_def)
    have idx': "ID x1' = uuid_New e1 0" "ID x2' = uuid_New e2 0"
      using matchLoop_aggressor [OF m1] matchLoop_aggressor [OF m2]
      by (simp_all add: static_eq_def NewOrder_def)
    have rs: "rests ty x2' = rests ty x1'"
      using cell_sim_simps(1) [OF s(3)] by (simp add: rests_def)
    note so = set_opposing_sim [OF lad, of sd ls1]
    have "engine_sim P' me1' me2'"
    proof (cases "rests ty x1'")
      case True
      let ?g1 = "h1'(?n := x1')" and ?g2 = "h2'(?n := x2')"
      have sp: "Side (?g1 ?n) = Side (?g2 ?n)" "Price (?g1 ?n) = Price (?g2 ?n)"
        using s(3) by (simp_all add: cell_sim_def)
      have ao: "Bids (AddOrder ?g1 ?n (set_opposing sd ls1 ?b1))
            = Bids (AddOrder ?g2 ?n (set_opposing sd ls1 ?b2))"
          "Asks (AddOrder ?g1 ?n (set_opposing sd ls1 ?b1))
            = Asks (AddOrder ?g2 ?n (set_opposing sd ls1 ?b2))"
        using sp so by (auto intro: AddOrder_sim)
      from True st1 st2 rs s(2) n have
        e1: "me1' = me1\<lparr>books := (books me1)(symbol \<mapsto>
                   AddOrder ?g1 ?n (set_opposing sd ls1 ?b1)),
                 heap := ?g1, next_addr := Suc ?n\<rparr>"
        and e2: "me2' = me2\<lparr>books := (books me2)(symbol \<mapsto>
                   AddOrder ?g2 ?n (set_opposing sd ls1 ?b2)),
                 heap := ?g2, next_addr := Suc ?n\<rparr>"
        by simp_all
      have "(ID (?g1 a), ID (?g2 a)) \<in> P'" if "a < Suc ?n" for a
      proof (cases "a = ?n")
        case True
        then show ?thesis using idx' P' by simp
      next
        case False
        with that have "a < ?n" by simp
        with tr sub ids False show ?thesis by auto
      qed
      moreover have "\<forall>a. cell_sim (?g1 a) (?g2 a)" using s(1,3) by simp
      ultimately show ?thesis
        unfolding e1 e2 using sim ao by (simp add: engine_sim_def the_book_at_upd2)
    next
      case False
      from False st1 st2 rs s(2) n have
        e1: "me1' = me1\<lparr>books := (books me1)(symbol \<mapsto> set_opposing sd ls1 ?b1), heap := h1'\<rparr>"
        and e2: "me2' = me2\<lparr>books := (books me2)(symbol \<mapsto> set_opposing sd ls1 ?b2), heap := h2'\<rparr>"
        by simp_all
      have "(ID (h1' a), ID (h2' a)) \<in> P'" if "a < ?n" for a
        using that tr sub ids by auto
      then show ?thesis
        unfolding e1 e2 using sim so s(1) n by (simp add: engine_sim_def the_book_at_upd2)
    qed
    with Inr r2 s(4) show ?thesis by simp
  qed
qed

lemma engine_sim_New: "engine_sim P NewMatchingEngine NewMatchingEngine"
  by (simp add: engine_sim_def cell_sim_def NewMatchingEngine_def)

lemma emitted_from_sim:
  assumes "map snd rn1 = map snd rn2" "engine_sim P me1 me2" "engine_wf me1"
  shows "list_all2 (same_trade (P \<union> set (zip (order_ids rn1) (order_ids rn2))))
           (emitted_from me1 rn1) (emitted_from me2 rn2)"
  using assms
proof (induction rn1 arbitrary: rn2 P me1 me2)
  case Nil
  then show ?case by simp
next
  case (Cons c1 rn1)
  from Cons.prems(1) obtain c2 rest2 where rn2: "rn2 = c2 # rest2"
    and c: "snd c1 = snd c2" and rest: "map snd rn1 = map snd rest2"
    by (cases rn2) auto
  obtain e1 symbol sd ty price qty where c1: "c1 = (e1, symbol, sd, ty, price, qty)"
    by (cases c1) auto
  with c obtain e2 where c2: "c2 = (e2, symbol, sd, ty, price, qty)"
    by (cases c2) auto
  obtain res1 me1' where s1: "SubmitOrder e1 symbol sd ty price qty me1 = (res1, me1')"
    by (cases "SubmitOrder e1 symbol sd ty price qty me1") auto
  obtain res2 me2' where s2: "SubmitOrder e2 symbol sd ty price qty me2 = (res2, me2')"
    by (cases "SubmitOrder e2 symbol sd ty price qty me2") auto
  let ?P' = "insert (uuid_New e1 0, uuid_New e2 0) P"
  let ?Q = "P \<union> set (zip (order_ids (c1 # rn1)) (order_ids rn2))"
  from SubmitOrder_sim [OF Cons.prems(2,3) s1 s2 refl]
  have sim': "engine_sim ?P' me1' me2'"
    and tr: "(\<exists>err1 err2. res1 = Inl err1 \<and> res2 = Inl err2)
          \<or> (\<exists>r1 r2. res1 = Inr r1 \<and> res2 = Inr r2
                \<and> list_all2 (same_trade ?P') (Trades r1) (Trades r2))"
    by blast+
  from engine_wf_Submit [OF Cons.prems(3), of e1 symbol sd ty price qty] s1
  have wf': "engine_wf me1'" by simp
  have Q: "?Q = ?P' \<union> set (zip (order_ids rn1) (order_ids rest2))"
    by (simp add: rn2 c1 c2 NewOrder_def)
  from Cons.IH [OF rest sim' wf'] Q
  have ih: "list_all2 (same_trade ?Q) (emitted_from me1' rn1) (emitted_from me2' rest2)"
    by simp
  have sub: "?P' \<subseteq> ?Q" unfolding Q by blast
  from tr show ?case
  proof
    assume "\<exists>err1 err2. res1 = Inl err1 \<and> res2 = Inl err2"
    with ih s1 s2 show ?thesis by (auto simp: rn2 c1 c2)
  next
    assume "\<exists>r1 r2. res1 = Inr r1 \<and> res2 = Inr r2
                \<and> list_all2 (same_trade ?P') (Trades r1) (Trades r2)"
    then obtain r1 r2 where r: "res1 = Inr r1" "res2 = Inr r2"
      and t: "list_all2 (same_trade ?P') (Trades r1) (Trades r2)"
      by blast
    from t sub have "list_all2 (same_trade ?Q) (Trades r1) (Trades r2)"
      by (auto elim!: list_all2_mono intro: same_trade_mono)
    from this ih have "list_all2 (same_trade ?Q) (Trades r1 @ emitted_from me1' rn1)
        (Trades r2 @ emitted_from me2' rest2)"
      by (rule list_all2_appendI)
    with s1 s2 r show ?thesis by (simp add: rn2 c1 c2)
  qed
qed

lemma emitted_run_a:
  "emitted run_a =
     [\<lparr>TradeID = ''t'', TradePrice = 15050, TradeQuantity = 100, TradeTimestamp = 0,
       BuyerID = ''b1'', SellerID = ''s1''\<rparr>,
      \<lparr>TradeID = ''t'', TradePrice = 15060, TradeQuantity = 50, TradeTimestamp = 0,
       BuyerID = ''b1'', SellerID = ''s2''\<rparr>]"
  by (simp add: emitted_def run_a_def submit_defs)

lemma emitted_run_b:
  "emitted run_b =
     [\<lparr>TradeID = ''v3'', TradePrice = 15050, TradeQuantity = 100, TradeTimestamp = 9,
       BuyerID = ''u3'', SellerID = ''u1''\<rparr>,
      \<lparr>TradeID = ''v3'', TradePrice = 15060, TradeQuantity = 50, TradeTimestamp = 9,
       BuyerID = ''u3'', SellerID = ''u2''\<rparr>]"
  by (simp add: emitted_def run_b_def env_at_def submit_defs)

section \<open>The claims\<close>

text \<open>
  C1 (the code departs from the claim).  The BUY LIMIT 100 @ 15050 with id \<open>b1\<close> is
  submitted against the resting SELL of 100 @ 15050.  \<open>SubmitOrder\<close> succeeds, returns the
  id \<open>b1\<close> with status FILLED, and the order never rests, so \<open>AddOrder\<close> never registers it
  in the id index: \<open>GetOrder\<close> on the returned id answers "order not found", whatever
  order the books are visited in.
\<close>

theorem C1_filled_at_submission_not_retrievable:
  "(\<exists>r. fst (SubmitOrder (env_of ''b1'') ''AAPL'' BUY LIMIT 15050 100 one_ask) = Inr r
        \<and> OrderID r = ''b1'' \<and> ResultStatus r = FILLED)
   \<and> (\<forall>ks. GetOrder ks ''b1''
          (snd (SubmitOrder (env_of ''b1'') ''AAPL'' BUY LIMIT 15050 100 one_ask))
        = Inl NotFound)"
proof -
  have "GetOrder ks ''b1''
          (snd (SubmitOrder (env_of ''b1'') ''AAPL'' BUY LIMIT 15050 100 one_ask))
        = Inl NotFound" for ks
    by (rule GetOrder_NotFound) (auto simp: one_ask_eq submit_defs split: if_splits)
  moreover have "\<exists>r. fst (SubmitOrder (env_of ''b1'') ''AAPL'' BUY LIMIT 15050 100 one_ask) = Inr r
        \<and> OrderID r = ''b1'' \<and> ResultStatus r = FILLED"
    by (simp add: one_ask_eq submit_defs)
  ultimately show ?thesis by blast
qed

text \<open>
  C2 (the code departs from the claim).  The resting BUY \<open>b1\<close> is cancelled: the call
  returns no error and the stored order is CANCELLED.  A second \<open>CancelOrder\<close> on the same
  id meets the guard for FILLED only, sets CANCELLED again, finds nothing to remove and
  returns no error either: cancelling an already-CANCELLED order reports success.
\<close>

theorem C2_cancel_of_cancelled_reports_success:
  "fst (CancelOrder [''AAPL''] ''b1'' one_bid) = None
   \<and> map_sum id Status (GetOrder [''AAPL''] ''b1'' one_bid_cancelled) = Inr CANCELLED
   \<and> CancelOrder [''AAPL''] ''b1'' one_bid_cancelled = (None, one_bid_cancelled)"
  by (simp add: one_bid_cancelled_eq one_bid_eq RemoveOrder_def removeFromBids_def)

text \<open>
  C8.  A LIMIT order that does not cross (the opposing ladder is empty, or a BUY is priced
  strictly below the best ask, or a SELL strictly above the best bid) is accepted with no
  trade; the opposing ladder is the same list of levels and queues afterwards, and every
  order resting on it is the same record, field by field.  The pointers of the ladder are
  taken to be allocated ones (below \<open>next_addr\<close>).
\<close>

theorem C8_no_cross_is_no_op:
  assumes sub: "SubmitOrder e symbol sd LIMIT price qty me = (res, me')"
    and valid: "0 <s qty" "0 <s price"
    and nc: "no_cross sd price (opposing sd (the_book symbol me))"
    and bound: "\<forall>a \<in> set (addrs (opposing sd (the_book symbol me))). a < next_addr me"
  shows "\<exists>r. res = Inr r \<and> Trades r = []
           \<and> opposing sd (the_book symbol me') = opposing sd (the_book symbol me)
           \<and> (\<forall>a \<in> set (addrs (opposing sd (the_book symbol me))). heap me' a = heap me a)"
proof (cases res)
  case (Inl err)
  with sub valid SubmitOrder_Inl [of e symbol sd LIMIT price qty me err me']
  show ?thesis by (auto simp: word_sless_alt word_sle_eq)
next
  case (Inr r)
  let ?x = "NewOrder e symbol sd LIMIT price qty"
  let ?b = "the_book symbol me"
  from nc have stop: "opposing sd ?b = [] \<or> price_stop sd ?x (hd (opposing sd ?b))"
    by (auto simp: no_cross_def price_stop_def)
  from sub Inr obtain h' ls' x' where
    m: "matchLoop sd e (heap me) (opposing sd ?b) ?x [] = (h', ls', x', Trades r)"
    and rest: "rests LIMIT x' \<longrightarrow>
       me' = me\<lparr>books := (books me)(symbol \<mapsto>
                 AddOrder (h'(next_addr me := x')) (next_addr me) (set_opposing sd ls' ?b)),
               heap := h'(next_addr me := x'), next_addr := Suc (next_addr me)\<rparr>
       \<and> RemainingQuantity r = Quantity x' - FilledQuantity x'
       \<and> ResultStatus r = (if 0 <s FilledQuantity x' then PARTIAL_FILL else ACCEPTED)"
    by (auto elim: SubmitOrder_Inr)
  from m matchLoop_no_cross [OF stop, of e "heap me" "[]"]
  have eq: "h' = heap me" "ls' = opposing sd ?b" "x' = ?x" "Trades r = []" by simp_all
  from valid have "rests LIMIT x'" by (simp add: rests_def is_open_def eq)
  with rest have me': "me' = me\<lparr>books := (books me)(symbol \<mapsto>
                 AddOrder ((heap me)(next_addr me := ?x)) (next_addr me) ?b),
               heap := (heap me)(next_addr me := ?x), next_addr := Suc (next_addr me)\<rparr>"
    by (simp add: eq)
  have "opposing sd (the_book symbol me') = opposing sd ?b"
    by (simp add: me')
  moreover have "heap me' a = heap me a" if "a \<in> set (addrs (opposing sd ?b))" for a
    using bound that by (auto simp: me')
  ultimately show ?thesis using Inr eq by simp
qed

theorem C8_no_cross_is_no_op_witness:
  "no_cross BUY 15000 (opposing BUY (the_book ''AAPL'' one_ask))
   \<and> (\<exists>r. fst (SubmitOrder (env_of ''b1'') ''AAPL'' BUY LIMIT 15000 100 one_ask) = Inr r
        \<and> Trades r = []
        \<and> opposing BUY (the_book ''AAPL''
             (snd (SubmitOrder (env_of ''b1'') ''AAPL'' BUY LIMIT 15000 100 one_ask)))
           = [\<lparr>LevelPrice = 15050, LevelOrders = [0]\<rparr>]
        \<and> heap (snd (SubmitOrder (env_of ''b1'') ''AAPL'' BUY LIMIT 15000 100 one_ask)) 0
           = heap one_ask 0)"
proof -
  have nc: "no_cross BUY 15000 (opposing BUY (the_book ''AAPL'' one_ask))"
    by (simp add: the_book_one_ask no_cross_def opposing_def word_sless_alt)
  have bd: "\<forall>a \<in> set (addrs (opposing BUY (the_book ''AAPL'' one_ask))). a < next_addr one_ask"
    by (simp add: the_book_one_ask opposing_def) (simp add: one_ask_eq)
  have v: "0 <s (100::int64)" "0 <s (15000::int64)"
    by (simp_all add: word_sless_alt)
  from C8_no_cross_is_no_op [OF pair_collapse v nc bd] nc show ?thesis
    by (simp add: the_book_one_ask opposing_def)
qed

text \<open>
  C5.  Every trade of a successful submission is made at the price field of a resting
  order of the opposing ladder (the one whose id the trade names as counterparty), and
  names the incoming order as the other party.  When every resting order sits in the
  level of its own price, a LIMIT aggressor trades at its limit or better: at most the
  limit for a BUY, at least the limit for a SELL.
\<close>

theorem C5_trade_at_resting_price:
  assumes sub: "SubmitOrder e symbol sd ty price qty me = (Inr r, me')"
    and t: "t \<in> set (Trades r)"
  shows "(\<exists>a \<in> set (addrs (opposing sd (the_book symbol me))).
            TradePrice t = Price (heap me a) \<and> counterparty sd t = ID (heap me a))
       \<and> aggressor sd t = OrderID r
       \<and> (prices_match (heap me) (opposing sd (the_book symbol me)) \<and> ty = LIMIT \<longrightarrow>
            (if sd = BUY then TradePrice t \<le>s price else price \<le>s TradePrice t))"
proof -
  let ?x = "NewOrder e symbol sd ty price qty"
  let ?ls = "opposing sd (the_book symbol me)"
  from sub obtain h' ls' x' where
    m: "matchLoop sd e (heap me) ?ls ?x [] = (h', ls', x', Trades r)"
    and id: "OrderID r = uuid_New e 0"
    by (auto elim: SubmitOrder_Inr)
  from matchLoop_trades [OF m] have
    q: "map (\<lambda>t. (TradePrice t, counterparty sd t)) (Trades r)
          = map (\<lambda>a. (Price (heap me a), ID (heap me a)))
              (take (length (Trades r)) (addrs ?ls))"
    and ag: "\<forall>t \<in> set (Trades r). aggressor sd t = ID ?x"
    by auto
  from trades_from_queue [OF q t]
  have 1: "\<exists>a \<in> set (addrs ?ls). TradePrice t = Price (heap me a) \<and> counterparty sd t = ID (heap me a)" .
  from ag t id have 2: "aggressor sd t = OrderID r" by simp
  have 3: "if sd = BUY then TradePrice t \<le>s price else price \<le>s TradePrice t"
    if pm: "prices_match (heap me) ?ls" and ty: "ty = LIMIT"
  proof -
    from pm have "\<forall>l \<in> set ?ls. \<forall>a \<in> set (LevelOrders l). Price (heap me a) = LevelPrice l"
      by (simp add: prices_match_def)
    from matchLoop_within_limit [OF m this] t have "within_limit sd ?x (TradePrice t)" by simp
    with ty show ?thesis by (cases sd) (simp_all add: within_limit_def)
  qed
  from 1 2 3 show ?thesis by blast
qed

theorem C5_trade_at_resting_price_witness:
  "\<exists>r t. fst (SubmitOrder (env_of ''b1'') ''AAPL'' BUY LIMIT 15100 100 one_ask) = Inr r
        \<and> Trades r = [t] \<and> TradePrice t = 15050 \<and> TradePrice t \<le>s 15100
        \<and> TradePrice t = Price (heap one_ask 0)
        \<and> counterparty BUY t = ''s1'' \<and> aggressor BUY t = OrderID r"
proof -
  let ?s = "SubmitOrder (env_of ''b1'') ''AAPL'' BUY LIMIT 15100 100 one_ask"
  let ?t = "\<lparr>TradeID = ''t'', TradePrice = 15050, TradeQuantity = 100, TradeTimestamp = 0,
             BuyerID = ''b1'', SellerID = ''s1''\<rparr>"
  let ?r = "\<lparr>OrderID = ''b1'', ResultStatus = FILLED, ResultFilledQuantity = 100,
             RemainingQuantity = 0, Trades = [?t], Message = ''Order fully filled''\<rparr>"
  have r: "fst ?s = Inr ?r"
    by (simp add: one_ask_eq submit_defs)
  then have s: "?s = (Inr ?r, snd ?s)" by (rule fst_result)
  have pm: "prices_match (heap one_ask) (opposing BUY (the_book ''AAPL'' one_ask))"
    by (simp add: the_book_one_ask prices_match_def opposing_def) (simp add: one_ask_eq)
  from C5_trade_at_resting_price [OF s, of ?t] pm
  have c: "aggressor BUY ?t = OrderID ?r" "TradePrice ?t \<le>s 15100"
    by simp_all
  show ?thesis
  proof (intro conjI exI)
    show "fst ?s = Inr ?r" by fact
    show "Trades ?r = [?t]" by simp
    show "TradePrice ?t = 15050" by simp
    show "TradePrice ?t \<le>s 15100" by fact
    show "TradePrice ?t = Price (heap one_ask 0)" by (simp add: one_ask_eq)
    show "counterparty BUY ?t = ''s1''" by (simp add: counterparty_def)
    show "aggressor BUY ?t = OrderID ?r" by fact
  qed
qed

text \<open>
  C10.  When a submission reports PARTIAL_FILL it is a LIMIT order whose remainder rests;
  the status is set on the result record only.  The order stored under the returned id
  (the id being new to the registry) has status ACCEPTED, the filled quantity of the
  result, which is positive, and is not filled up.
\<close>

theorem C10_stored_status_stays_accepted:
  assumes sub: "SubmitOrder e symbol sd ty price qty me = (Inr r, me')"
    and part: "ResultStatus r = PARTIAL_FILL"
    and fresh: "\<forall>k b. books me k = Some b \<longrightarrow> Orders b (uuid_New e 0) = None"
    and ks: "symbol \<in> set ks"
  shows "ty = LIMIT \<and>
    (\<exists>x. GetOrder ks (OrderID r) me' = Inr x \<and> ID x = OrderID r \<and> Status x = ACCEPTED
        \<and> FilledQuantity x = ResultFilledQuantity r \<and> 0 <s FilledQuantity x
        \<and> FilledQuantity x <s Quantity x)"
proof -
  let ?x = "NewOrder e symbol sd ty price qty"
  let ?b = "the_book symbol me"
  let ?n = "next_addr me"
  from sub obtain h' ls' x' where
    m: "matchLoop sd e (heap me) (opposing sd ?b) ?x [] = (h', ls', x', Trades r)"
    and id: "OrderID r = uuid_New e 0" and f: "ResultFilledQuantity r = FilledQuantity x'"
    and rest: "rests ty x' \<longrightarrow>
       me' = me\<lparr>books := (books me)(symbol \<mapsto>
                 AddOrder (h'(?n := x')) ?n (set_opposing sd ls' ?b)),
               heap := h'(?n := x'), next_addr := Suc ?n\<rparr>
       \<and> RemainingQuantity r = Quantity x' - FilledQuantity x'
       \<and> ResultStatus r = (if 0 <s FilledQuantity x' then PARTIAL_FILL else ACCEPTED)"
    and norest: "\<not> rests ty x' \<longrightarrow>
       me' = me\<lparr>books := (books me)(symbol \<mapsto> set_opposing sd ls' ?b), heap := h'\<rparr>
       \<and> RemainingQuantity r = 0
       \<and> ResultStatus r = (if FilledQuantity x' = Quantity x' then FILLED else Status x')"
    by (auto elim: SubmitOrder_Inr)
  from matchLoop_aggressor [OF m] have x': "ID x' = uuid_New e 0" "Status x' = ACCEPTED"
    by (simp_all add: static_eq_def)
  from norest part x' have r: "rests ty x'" by (auto split: if_splits)
  with rest part have pos: "0 <s FilledQuantity x'" by (auto split: if_splits)
  from r rest have me': "me' = me\<lparr>books := (books me)(symbol \<mapsto>
                 AddOrder (h'(?n := x')) ?n (set_opposing sd ls' ?b)),
               heap := h'(?n := x'), next_addr := Suc ?n\<rparr>" by simp
  have "GetOrder ks (uuid_New e 0) me' = Inr (heap me' ?n)"
  proof (rule GetOrder_found [OF ks])
    show "books me' symbol = Some (AddOrder (h'(?n := x')) ?n (set_opposing sd ls' ?b))"
      by (simp add: me')
    show "Orders (AddOrder (h'(?n := x')) ?n (set_opposing sd ls' ?b)) (uuid_New e 0) = Some ?n"
      by (simp add: x')
    show "Orders b' (uuid_New e 0) = None" if "k \<noteq> symbol" "books me' k = Some b'" for k b'
      using that fresh by (simp add: me')
  qed
  moreover have "heap me' ?n = x'" by (simp add: me')
  ultimately show ?thesis
    using r x' pos f id by (simp add: rests_def is_open_def)
qed

text \<open>A BUY LIMIT 150 @ 15050 against the resting SELL of 100 fills 100 and rests 50.\<close>

theorem C10_stored_status_stays_accepted_witness:
  "\<exists>r. fst (SubmitOrder (env_of ''b1'') ''AAPL'' BUY LIMIT 15050 150 one_ask) = Inr r
        \<and> ResultStatus r = PARTIAL_FILL \<and> OrderID r = ''b1''
        \<and> (\<exists>x. GetOrder [''AAPL''] ''b1''
                   (snd (SubmitOrder (env_of ''b1'') ''AAPL'' BUY LIMIT 15050 150 one_ask)) = Inr x
              \<and> Status x = ACCEPTED \<and> FilledQuantity x = 100 \<and> 0 <s FilledQuantity x)"
proof -
  let ?s = "SubmitOrder (env_of ''b1'') ''AAPL'' BUY LIMIT 15050 150 one_ask"
  let ?t = "\<lparr>TradeID = ''t'', TradePrice = 15050, TradeQuantity = 100, TradeTimestamp = 0,
             BuyerID = ''b1'', SellerID = ''s1''\<rparr>"
  let ?r = "\<lparr>OrderID = ''b1'', ResultStatus = PARTIAL_FILL, ResultFilledQuantity = 100,
             RemainingQuantity = 50, Trades = [?t],
             Message = ''Order partially filled and added to book''\<rparr>"
  have r: "fst ?s = Inr ?r"
    by (simp add: one_ask_eq submit_defs)
  then have s: "?s = (Inr ?r, snd ?s)" by (rule fst_result)
  have fresh: "\<forall>k b. books one_ask k = Some b \<longrightarrow> Orders b (uuid_New (env_of ''b1'') 0) = None"
    by (auto simp: one_ask_eq env_of_def split: if_splits)
  from C10_stored_status_stays_accepted [OF s _ fresh, of "[''AAPL'']"]
  obtain x where x: "GetOrder [''AAPL''] (OrderID ?r) (snd ?s) = Inr x" "Status x = ACCEPTED"
    "FilledQuantity x = ResultFilledQuantity ?r" "0 <s FilledQuantity x"
    by auto
  show ?thesis
  proof (intro conjI exI)
    show "fst ?s = Inr ?r" by fact
    show "ResultStatus ?r = PARTIAL_FILL" "OrderID ?r = ''b1''" by simp_all
    show "GetOrder [''AAPL''] ''b1'' (snd ?s) = Inr x" using x(1) by simp
    show "Status x = ACCEPTED" "0 <s FilledQuantity x" by fact+
    show "FilledQuantity x = 100" using x(3) by simp
  qed
qed

text \<open>
  C3 as stated fails when the incoming order rests.  A BUY LIMIT 150 @ 15050 meets the
  resting SELL of 100 @ 15050: one trade of 100, and the total remaining quantity of the
  two ladders goes from 100 (the ask) to 50 (the new bid), a decrease of 50.
\<close>

theorem C3_counterexample:
  "traded (Trades (projr (fst (SubmitOrder (env_of ''b1'') ''AAPL'' BUY LIMIT 15050 150 one_ask))))
     = 100
   \<and> book_remaining (heap one_ask) (the_book ''AAPL'' one_ask)
     - book_remaining
         (heap (snd (SubmitOrder (env_of ''b1'') ''AAPL'' BUY LIMIT 15050 150 one_ask)))
         (the_book ''AAPL''
           (snd (SubmitOrder (env_of ''b1'') ''AAPL'' BUY LIMIT 15050 150 one_ask)))
     = 50"
  by (simp add: one_ask_eq submit_defs the_book_def book_remaining_def baddrs_def
      remaining_def traded_def)

text \<open>
  C3, amended.  For every successful submission to a well-formed engine, the total
  remaining quantity of the two ladders of its book afterwards is the total before, minus
  the sum of the trade quantities, plus the remaining quantity that the result reports for
  the incoming order (the remainder rested on its own side; zero when nothing rests).  The
  sum of the trade quantities is the filled quantity of the result.
\<close>

theorem C3_conservation:
  assumes sub: "SubmitOrder e symbol sd ty price qty me = (Inr r, me')"
    and wf: "engine_wf me"
  shows "book_remaining (heap me') (the_book symbol me')
           = book_remaining (heap me) (the_book symbol me) - traded (Trades r)
             + sint (RemainingQuantity r)
       \<and> traded (Trades r) = sint (ResultFilledQuantity r)"
proof -
  from sub wf obtain x' where x': "agg_ok x'" "Quantity x' = qty"
    "ResultFilledQuantity r = FilledQuantity x'"
    "traded (Trades r) = sint qty - remaining x'"
    "queue_remaining (heap me') (addrs (opposing sd (the_book symbol me')))
       = queue_remaining (heap me) (addrs (opposing sd (the_book symbol me)))
         - (sint qty - remaining x')"
    "queue_remaining (heap me') (addrs (own_side sd (the_book symbol me')))
       = queue_remaining (heap me) (addrs (own_side sd (the_book symbol me)))
         + (if rests ty x' then remaining x' else 0)"
    "RemainingQuantity r = (if rests ty x' then Quantity x' - FilledQuantity x' else 0)"
    by (rule SubmitOrder_quantities)
  have "sint (RemainingQuantity r) = (if rests ty x' then remaining x' else 0)"
    using x'(1,7) open_remaining(1) [of x'] by (simp add: rests_def is_open_def agg_ok_def)
  with x'(4,5,6) have "book_remaining (heap me') (the_book symbol me')
           = book_remaining (heap me) (the_book symbol me) - traded (Trades r)
             + sint (RemainingQuantity r)"
    by (simp add: book_remaining_sides [of _ _ sd])
  moreover from x'(2,3,4) have "traded (Trades r) = sint (ResultFilledQuantity r)"
    by (simp add: remaining_def)
  ultimately show ?thesis by simp
qed

text \<open>
  C4 (the code departs from the claim).  Two SELL LIMIT orders of \<open>2^62\<close> rest at price 1,
  so the opposing side of a BUY holds \<open>2^63\<close>, far more than the requested quantity 1.
  The precheck of \<open>matchMarketOrder\<close> sums the remaining quantities in an \<^verbatim>\<open>int64\<close>
  with no overflow check: the sum wraps to \<open>- 2^63\<close>, and the BUY MARKET of 1 is rejected
  with InsufficientLiquidity, reporting \<open>- 2^63\<close> shares available.
\<close>

theorem C4_precheck_overflow_rejects_fillable_order:
  "queue_remaining (heap huge_asks) (addrs (opposing BUY (the_book ''AAPL'' huge_asks)))
     = 9223372036854775808
   \<and> fst (SubmitOrder (env_of ''m1'') ''AAPL'' BUY MARKET 0 1 huge_asks)
     = Inl (InsufficientLiquidity 9223372036854775808 1)
   \<and> sint (9223372036854775808 :: int64) = - 9223372036854775808"
  by (simp add: huge_asks_eq submit_defs the_book_def opposing_def remaining_def)

theorem C3_conservation_witness:
  "book_remaining
     (heap (snd (SubmitOrder (env_of ''b1'') ''AAPL'' BUY LIMIT 15050 150 one_ask)))
     (the_book ''AAPL'' (snd (SubmitOrder (env_of ''b1'') ''AAPL'' BUY LIMIT 15050 150 one_ask)))
   = book_remaining (heap one_ask) (the_book ''AAPL'' one_ask) - 100 + 50"
proof -
  let ?s = "SubmitOrder (env_of ''b1'') ''AAPL'' BUY LIMIT 15050 150 one_ask"
  let ?t = "\<lparr>TradeID = ''t'', TradePrice = 15050, TradeQuantity = 100, TradeTimestamp = 0,
             BuyerID = ''b1'', SellerID = ''s1''\<rparr>"
  let ?r = "\<lparr>OrderID = ''b1'', ResultStatus = PARTIAL_FILL, ResultFilledQuantity = 100,
             RemainingQuantity = 50, Trades = [?t],
             Message = ''Order partially filled and added to book''\<rparr>"
  have "fst ?s = Inr ?r"
    by (simp add: one_ask_eq submit_defs)
  then have s: "?s = (Inr ?r, snd ?s)" by (rule fst_result)
  from C3_conservation [OF s engine_wf_one_ask] show ?thesis
    by (simp add: traded_def)
qed



text \<open>
  C6.  The engine is in any state reached from the empty engine by submissions and
  cancellations.  \<open>SubmitOrder\<close> gives each resting order the next cell of the store, so a
  smaller address is an earlier arrival.  For every successful submission to such a
  state: the queue of every level of the opposing ladder is in arrival order (\<open>AddOrder\<close>
  appends, removal keeps the order); the trades name, one each and in this order, the
  orders of a prefix of the opposing ladder read level by level and queue by queue; and
  within a level, when the submission changes anything of a later-arrived order \<open>a'\<close>,
  every earlier-arrived order \<open>a\<close> of that level has been filled up (filled quantity equal
  to quantity, status FILLED).
\<close>

theorem C6_price_time_priority:
  assumes sub: "SubmitOrder e symbol sd ty price qty (run ops) = (Inr r, me')"
  shows "(\<forall>l \<in> set (opposing sd (the_book symbol (run ops))). sorted_wrt (<) (LevelOrders l))
       \<and> map (counterparty sd) (Trades r)
           = map (\<lambda>a. ID (heap (run ops) a))
               (take (length (Trades r)) (addrs (opposing sd (the_book symbol (run ops)))))
       \<and> (\<forall>l \<in> set (opposing sd (the_book symbol (run ops))).
            \<forall>a \<in> set (LevelOrders l). \<forall>a' \<in> set (LevelOrders l).
              a < a' \<and> heap me' a' \<noteq> heap (run ops) a' \<longrightarrow> filled_up (heap me' a))"
proof -
  note wf = engine_wf_run [of ops]
  from book_wf_sides(6) [OF engine_wf_the_book [OF wf], of sd symbol]
  have "\<forall>l \<in> set (opposing sd (the_book symbol (run ops))). sorted_wrt (<) (LevelOrders l)"
    by (simp add: level_ok_def)
  with price_time_priority_wf [OF sub wf] show ?thesis by blast
qed

theorem C6_price_time_priority_witness:
  "map (counterparty BUY)
     (Trades (projr (fst (SubmitOrder (env_of ''b1'') ''AAPL'' BUY LIMIT 15050 150 three_asks))))
     = [''s1'', ''s2'']
   \<and> heap (snd (SubmitOrder (env_of ''b1'') ''AAPL'' BUY LIMIT 15050 150 three_asks)) 1
       \<noteq> heap three_asks 1
   \<and> filled_up (heap (snd (SubmitOrder (env_of ''b1'') ''AAPL'' BUY LIMIT 15050 150 three_asks)) 0)"
proof -
  let ?s = "SubmitOrder (env_of ''b1'') ''AAPL'' BUY LIMIT 15050 150 three_asks"
  let ?t1 = "\<lparr>TradeID = ''t'', TradePrice = 15050, TradeQuantity = 100, TradeTimestamp = 0,
             BuyerID = ''b1'', SellerID = ''s1''\<rparr>"
  let ?t2 = "\<lparr>TradeID = ''t'', TradePrice = 15050, TradeQuantity = 50, TradeTimestamp = 0,
             BuyerID = ''b1'', SellerID = ''s2''\<rparr>"
  let ?r = "\<lparr>OrderID = ''b1'', ResultStatus = FILLED, ResultFilledQuantity = 150,
             RemainingQuantity = 0, Trades = [?t1, ?t2], Message = ''Order fully filled''\<rparr>"
  have r: "fst ?s = Inr ?r"
    by (simp add: three_asks_eq submit_defs)
  then have s: "?s = (Inr ?r, snd ?s)" by (rule fst_result)
  have ch: "heap (snd ?s) 1 \<noteq> heap three_asks 1"
    by (simp add: three_asks_eq submit_defs fun_eq_iff)
  note c6 = C6_price_time_priority [OF s [folded run_three_asks], unfolded run_three_asks]
  from c6 have "map (counterparty BUY) (Trades ?r) = [''s1'', ''s2'']"
    by (simp add: the_book_three_asks opposing_def) (simp add: three_asks_eq)
  moreover from c6 ch have "filled_up (heap (snd ?s) 0)"
    by (simp add: the_book_three_asks opposing_def)
  ultimately show ?thesis using ch r by simp
qed

text \<open>
  C9.  Two runs apply the same submissions, in the same order, to the empty engine;
  their environments (the ids that \<^verbatim>\<open>uuid.New()\<close> draws for orders and trades, the
  clock) are arbitrary and may differ.  Then the two runs emit the same number of trades,
  and the trades at the same position of emission have the same price and the same
  quantity, and the same buyer and the same seller: the buyer ids of the two trades are
  the ids that the two runs gave to the order of one submission (they stand at one
  position of the runs' lists of order ids), and so are the seller ids.  Trade ids and
  timestamps are not compared.
\<close>

theorem C9_determinism:
  assumes "map snd run1 = map snd run2"
  shows "list_all2 (same_trade (set (zip (order_ids run1) (order_ids run2))))
           (emitted run1) (emitted run2)"
  using emitted_from_sim [OF assms engine_sim_New [of "{}"] engine_wf_New]
  by (simp add: emitted_def)

theorem C9_determinism_witness:
  "map snd run_a = map snd run_b
   \<and> list_all2 (same_trade (set (zip (order_ids run_a) (order_ids run_b))))
        (emitted run_a) (emitted run_b)
   \<and> length (emitted run_a) = 2
   \<and> order_ids run_a = [''s1'', ''s2'', ''b1''] \<and> order_ids run_b = [''u1'', ''u2'', ''u3'']"
proof -
  have m: "map snd run_a = map snd run_b" by (simp add: run_a_def run_b_def)
  have i: "order_ids run_a = [''s1'', ''s2'', ''b1'']" "order_ids run_b = [''u1'', ''u2'', ''u3'']"
    by (simp_all add: run_a_def run_b_def env_of_def env_at_def NewOrder_def)
  from C9_determinism [OF m] m i emitted_run_a show ?thesis by simp
qed

end
